theory Spec2Isabelle
  imports Main "HOL-Library.AList" "HOL-Library.Char_ord" "HOL-Library.List_Lexorder"
begin

section \<open>Extension registry: records, promises and the activation protocol\<close>

text \<open>
  The registry of \<^verbatim>\<open>class Extensions\<close> keeps a \<^verbatim>\<open>Map\<close> from extension id to an item whose
  behaviour lives in the closure variables of \<^verbatim>\<open>createExtension\<close>
  (\<^verbatim>\<open>isActive\<close>, \<^verbatim>\<open>result\<close>, \<^verbatim>\<open>ext\<close>, \<^verbatim>\<open>subscriptions\<close>, \<^verbatim>\<open>exports\<close>).
  Closures are kept in an explicit store addressed by numbers, because a suspended
  \<^verbatim>\<open>activate\<close> call holds on to the \<^verbatim>\<open>extension\<close> object it started with even when the
  map entry is replaced in the meantime.

  JavaScript runs one task at a time, so the only interleaving points of
  \<^verbatim>\<open>Extensions.activate\<close> are its \<^verbatim>\<open>await\<close> and the settling of the promise returned by
  the extension's entry point. The model therefore splits the method into the part before
  the \<^verbatim>\<open>await\<close> (\<open>activate_call\<close>), the promise callbacks (\<open>settle\<close>) and the part after
  the \<^verbatim>\<open>await\<close> (\<open>activate_resume\<close>); a schedule is a list of such events.
\<close>

type_synonym ext_id = string
type_synonym api = nat
type_synonym addr = nat
type_synonym pid = nat

datatype ExtensionType = Global | Local | SingleFile | Internal

text \<open>The fields of an extension's \<^verbatim>\<open>package.json\<close> that the registry reads.\<close>

record package_json =
  pj_name :: ext_id
  pj_main :: "string option"
  pj_engines :: "(string \<times> string) list option"
  pj_activationEvents :: "string list option"

text \<open>
  What one run of the entry point \<^verbatim>\<open>ext.activate(context)\<close> does: it throws before
  returning, or it returns something whose promise later fulfils with the exports, later
  rejects, or never settles. The entry point is extension code, so its behaviour is a
  parameter of the model, indexed by the number of the promise that the run creates;
  so are the disposables that the run pushes on \<^verbatim>\<open>context.subscriptions\<close>.
\<close>

datatype behaviour = Throws string | Resolves api | Rejects string | Hangs

datatype pstate = Pending | Fulfilled api | Rejected string

record promise =
  p_owner :: addr
  p_state :: pstate

record closure =
  c_id :: ext_id
  c_root :: string
  c_packageJSON :: package_json
  c_type :: ExtensionType
  isActive :: bool
  result :: "pid option"
  ext :: bool
  subscriptions :: "nat list"
  exports :: "api option"

datatype aerror = Disabled ext_id | NotRegistered ext_id | ActivationError string

datatype outcome = Returned bool | Thrown aerror

datatype effect =
    EntryPoint addr pid
  | Teardown addr
  | Disposed nat
  | DidActive addr
  | DidLoad addr
  | DidUnload ext_id
  | ShowMessage string
  | LogError string

text \<open>
  A suspended \<^verbatim>\<open>Extensions.activate\<close> call: the \<^verbatim>\<open>extension\<close> object it holds and the promise
  it awaits (\<open>None\<close> when \<^verbatim>\<open>extension.activate()\<close> returned \<^verbatim>\<open>undefined\<close>).
\<close>

record frame =
  f_id :: ext_id
  f_ext :: addr
  f_awaits :: "pid option"

datatype trigger =
    OnLanguage "string option"
  | OnCommand "string option"
  | WorkspaceContains "string option"
  | OnFileSystem "string option"

record registry =
  disabled :: "ext_id set"
  extensions :: "(ext_id \<times> addr) list"
  heap :: "addr \<Rightarrow> closure"
  nclosures :: nat
  promises :: "pid \<Rightarrow> promise"
  npromises :: nat
  frames :: "frame list"
  finished :: "(ext_id \<times> outcome) list"
  effects :: "effect list"
  listeners :: "(nat \<times> ext_id \<times> trigger) list"
  nsetups :: nat
  activated :: bool

text \<open>
  The surroundings of the registry: the entry points, the module loader
  \<^verbatim>\<open>createExtension(id, filename, isEmpty)\<close> of \<^verbatim>\<open>util/factory\<close> (it throws or yields the
  module, which may or may not export \<^verbatim>\<open>deactivate\<close>), and the parts of the workspace that
  the activation events look at.
\<close>

record env =
  entry :: "pid \<Rightarrow> behaviour"
  factory :: "ext_id \<Rightarrow> string \<Rightarrow> bool \<Rightarrow> bool"
  has_deactivate :: "ext_id \<Rightarrow> bool"
  pushes :: "pid \<Rightarrow> nat list"
  ws_languageIds :: "string set"
  ws_filetypes :: "string set"
  ws_schemes :: "string list"
  ws_folders :: "string list"
  checkFolder :: "string \<Rightarrow> string \<Rightarrow> bool"

definition isDisabled :: "registry \<Rightarrow> ext_id \<Rightarrow> bool" where
  "isDisabled s i = (i \<in> disabled s)"

definition has :: "registry \<Rightarrow> ext_id \<Rightarrow> bool" where
  "has s i = (map_of (extensions s) i \<noteq> None)"

definition canActivate :: "registry \<Rightarrow> ext_id \<Rightarrow> bool" where
  "canActivate s i = (\<not> isDisabled s i \<and> has s i)"

definition isActivated :: "registry \<Rightarrow> ext_id \<Rightarrow> bool" where
  "isActivated s i =
     (case map_of (extensions s) i of None \<Rightarrow> False | Some a \<Rightarrow> isActive (heap s a))"

definition emit :: "effect \<Rightarrow> registry \<Rightarrow> registry" where
  "emit e s = s\<lparr>effects := effects s @ [e]\<rparr>"

definition filename_of :: "closure \<Rightarrow> string" where
  "filename_of c =
     c_root c @ ''/'' @
       (case pj_main (c_packageJSON c) of
          None \<Rightarrow> ''index.js''
        | Some m \<Rightarrow> if m = [] then ''index.js'' else m)"

definition isEmpty_of :: "closure \<Rightarrow> bool" where
  "isEmpty_of c =
     (case pj_engines (c_packageJSON c) of
        None \<Rightarrow> True
      | Some es \<Rightarrow> map_of es ''coc'' = None)"

text \<open>
  \<^verbatim>\<open>extension.activate()\<close> of \<^verbatim>\<open>createExtension\<close>: returns the cached promise if there is
  one; loads the module if needed (a failing load is logged and yields \<^verbatim>\<open>undefined\<close>,
  with nothing cached); otherwise runs the entry point inside a new promise
  (\<open>start_promise\<close>), which is cached in \<^verbatim>\<open>result\<close>. An entry point that throws rejects
  the new promise on the spot.
\<close>

definition loadable :: "env \<Rightarrow> closure \<Rightarrow> bool" where
  "loadable E c = (ext c \<or> factory E (c_id c) (filename_of c) (isEmpty_of c))"

definition start_promise :: "env \<Rightarrow> addr \<Rightarrow> registry \<Rightarrow> registry" where
  "start_promise E a s =
     (let p = npromises s; c = heap s a in
      s\<lparr>heap := (heap s)(a := c\<lparr>ext := True,
                                 subscriptions := subscriptions c @ pushes E p,
                                 result := Some p\<rparr>),
        promises := (promises s)
          (p := \<lparr>p_owner = a,
                 p_state = (case entry E p of Throws e \<Rightarrow> Rejected e | _ \<Rightarrow> Pending)\<rparr>),
        npromises := Suc p,
        effects := effects s @ [EntryPoint a p]\<rparr>)"

definition ext_activate :: "env \<Rightarrow> addr \<Rightarrow> registry \<Rightarrow> pid option \<times> registry" where
  "ext_activate E a s =
     (case result (heap s a) of
        Some p \<Rightarrow> (Some p, s)
      | None \<Rightarrow>
          if \<not> loadable E (heap s a) then (None, emit (LogError (c_id (heap s a))) s)
          else (Some (npromises s), start_promise E a s))"

text \<open>
  The callbacks that \<^verbatim>\<open>extension.activate\<close> attaches to the entry point's promise. On
  fulfilment: \<^verbatim>\<open>isActive = true; exports = res; resolve(res)\<close>; on rejection:
  \<^verbatim>\<open>reject(e)\<close>. A promise settles once.
\<close>

definition settle :: "env \<Rightarrow> pid \<Rightarrow> registry \<Rightarrow> registry" where
  "settle E p s =
     (if p < npromises s \<and> p_state (promises s p) = Pending then
        (let a = p_owner (promises s p) in
         case entry E p of
           Resolves v \<Rightarrow>
             s\<lparr>heap := (heap s)(a := (heap s a)\<lparr>isActive := True, exports := Some v\<rparr>),
               promises := (promises s)(p := (promises s p)\<lparr>p_state := Fulfilled v\<rparr>)\<rparr>
         | Rejects e \<Rightarrow>
             s\<lparr>promises := (promises s)(p := (promises s p)\<lparr>p_state := Rejected e\<rparr>)\<rparr>
         | _ \<Rightarrow> s)
      else s)"

text \<open>
  \<^verbatim>\<open>Extensions.activate(id)\<close> up to its \<^verbatim>\<open>await\<close>: the result is either the outcome of a
  call that ends before awaiting, or \<open>None\<close> with a new frame pushed.
\<close>

definition activate_call :: "env \<Rightarrow> ext_id \<Rightarrow> registry \<Rightarrow> outcome option \<times> registry" where
  "activate_call E i s =
     (if isDisabled s i then (Some (Thrown (Disabled i)), s)
      else case map_of (extensions s) i of
        None \<Rightarrow> (Some (Thrown (NotRegistered i)), s)
      | Some a \<Rightarrow>
          if isActive (heap s a) then (Some (Returned True), s)
          else
            let (r, s1) = ext_activate E a s
            in (None, s1\<lparr>frames := frames s1 @ [\<lparr>f_id = i, f_ext = a, f_awaits = r\<rparr>]\<rparr>))"

text \<open>
  The rest of \<^verbatim>\<open>Extensions.activate\<close>, once the awaited promise has settled: a rejection is
  rethrown; otherwise the call fires \<^verbatim>\<open>onDidActiveExtension\<close> and returns \<^verbatim>\<open>true\<close> when the
  extension is active, and returns \<^verbatim>\<open>false\<close> when it is not.
\<close>

definition can_resume :: "registry \<Rightarrow> frame \<Rightarrow> bool" where
  "can_resume s f =
     (case f_awaits f of None \<Rightarrow> True | Some p \<Rightarrow> p_state (promises s p) \<noteq> Pending)"

definition resume_outcome :: "registry \<Rightarrow> frame \<Rightarrow> outcome" where
  "resume_outcome s f =
     (case f_awaits f of
        None \<Rightarrow> Returned (isActive (heap s (f_ext f)))
      | Some p \<Rightarrow>
          (case p_state (promises s p) of
             Rejected e \<Rightarrow> Thrown (ActivationError e)
           | _ \<Rightarrow> Returned (isActive (heap s (f_ext f)))))"

definition activate_resume :: "nat \<Rightarrow> registry \<Rightarrow> outcome option \<times> registry" where
  "activate_resume k s =
     (if k < length (frames s) \<and> can_resume s (frames s ! k) then
        (let f = frames s ! k;
             r = resume_outcome s f;
             s1 = s\<lparr>frames := take k (frames s) @ drop (Suc k) (frames s)\<rparr>;
             s2 = (if r = Returned True then emit (DidActive (f_ext f)) s1 else s1)
         in (Some r, s2))
      else (None, s))"

text \<open>
  The item's \<^verbatim>\<open>deactivate\<close> closure, and \<^verbatim>\<open>Extensions.deactivate(id)\<close> around it. Errors of
  the extension's own \<^verbatim>\<open>deactivate\<close> are caught and logged by the source, so the teardown
  is recorded as an effect only.
\<close>

definition item_deactivate :: "env \<Rightarrow> addr \<Rightarrow> registry \<Rightarrow> registry" where
  "item_deactivate E a s =
     (let c = heap s a in
      if \<not> isActive c then s
      else
        s\<lparr>heap := (heap s)(a := c\<lparr>result := None, exports := None, isActive := False,
                                   subscriptions := []\<rparr>),
          effects := effects s @ map Disposed (subscriptions c) @
                     (if ext c \<and> has_deactivate E (c_id c) then [Teardown a] else [])\<rparr>)"

definition deactivate :: "env \<Rightarrow> ext_id \<Rightarrow> registry \<Rightarrow> bool \<times> registry" where
  "deactivate E i s =
     (case map_of (extensions s) i of
        None \<Rightarrow> (False, s)
      | Some a \<Rightarrow> (True, item_deactivate E a s))"

definition unloadExtension :: "env \<Rightarrow> ext_id \<Rightarrow> registry \<Rightarrow> registry" where
  "unloadExtension E i s =
     (case map_of (extensions s) i of
        None \<Rightarrow> s
      | Some a \<Rightarrow>
          let s1 = snd (deactivate E i s);
              s2 = s1\<lparr>extensions := AList.delete i (extensions s1)\<rparr>
          in emit (DidUnload i) s2)"


subsection \<open>Activation events\<close>

text \<open>
  \<^verbatim>\<open>String.prototype.split\<close> with a one-character separator, and with the separator
  \<^verbatim>\<open>/\s+/\<close> (a run of white space separates once).
\<close>

fun split_on :: "(char \<Rightarrow> bool) \<Rightarrow> string \<Rightarrow> string list" where
  "split_on P [] = [[]]"
| "split_on P (c # cs) =
     (if P c then [] # split_on P cs
      else (case split_on P cs of
              w # ws \<Rightarrow> (c # w) # ws
            | [] \<Rightarrow> [[c]]))"

definition is_space :: "char \<Rightarrow> bool" where
  "is_space c = (c = CHR '' '' \<or> c = CHR 0x09 \<or> c = CHR 0x0A \<or> c = CHR 0x0B
                 \<or> c = CHR 0x0C \<or> c = CHR 0x0D)"

definition split_spaces :: "string \<Rightarrow> string list" where
  "split_spaces s =
     (case split_on is_space s of
        [] \<Rightarrow> []
      | [w] \<Rightarrow> [w]
      | w # ws \<Rightarrow> w # filter (\<lambda>x. x \<noteq> []) (butlast ws) @ [last ws])"

definition event_parts :: "string \<Rightarrow> string \<times> string option" where
  "event_parts eventName =
     (case split_on (\<lambda>c. c = CHR '':'') eventName of
        [] \<Rightarrow> ([], None)
      | [ev] \<Rightarrow> (ev, None)
      | ev # arg # _ \<Rightarrow> (ev, Some arg))"

text \<open>
  The local function \<^verbatim>\<open>active\<close> of \<^verbatim>\<open>setupActiveEvents\<close>, called the first time a trigger
  fires: it disposes the listeners of this set-up and calls \<^verbatim>\<open>this.activate(id)\<close> when the
  extension can be activated. A call that throws is reported with a message.
\<close>

definition activate_reported :: "env \<Rightarrow> ext_id \<Rightarrow> registry \<Rightarrow> registry" where
  "activate_reported E i s =
     (case activate_call E i s of
        (Some (Thrown e), s1) \<Rightarrow> emit (ShowMessage i) s1
      | (_, s1) \<Rightarrow> s1)"

definition active :: "env \<Rightarrow> ext_id \<Rightarrow> nat \<Rightarrow> registry \<Rightarrow> registry" where
  "active E i k s =
     (let s1 = s\<lparr>listeners := filter (\<lambda>l. fst l \<noteq> k) (listeners s)\<rparr>
      in if \<not> canActivate s1 i then emit (LogError i) s1
         else activate_reported E i s1)"

definition listen :: "nat \<Rightarrow> ext_id \<Rightarrow> trigger \<Rightarrow> registry \<Rightarrow> registry" where
  "listen k i t s = s\<lparr>listeners := listeners s @ [(k, i, t)]\<rparr>"

text \<open>
  The loop of \<^verbatim>\<open>setupActiveEvents\<close> over the declared events. An event whose condition
  already holds activates and ends the set-up; otherwise a listener is registered.
  \<^verbatim>\<open>workspaceContains\<close> without an argument fails on \<^verbatim>\<open>parts[1].split\<close> after its listener
  has been registered, which ends the set-up with a logged error.
\<close>

fun setup_loop :: "env \<Rightarrow> ext_id \<Rightarrow> nat \<Rightarrow> string list \<Rightarrow> registry \<Rightarrow> registry" where
  "setup_loop E i k [] s = s"
| "setup_loop E i k (eventName # rest) s =
     (let (ev, arg) = event_parts eventName in
      if ev = ''onLanguage'' then
        (if (\<exists>l. arg = Some l \<and> (l \<in> ws_languageIds E \<or> l \<in> ws_filetypes E))
         then active E i k s
         else setup_loop E i k rest (listen k i (OnLanguage arg) s))
      else if ev = ''onCommand'' then
        setup_loop E i k rest (listen k i (OnCommand arg) s)
      else if ev = ''workspaceContains'' then
        (let s1 = listen k i (WorkspaceContains arg) s in
         if ws_folders E = [] then setup_loop E i k rest s1
         else case arg of
           None \<Rightarrow> emit (LogError i) s1
         | Some pats \<Rightarrow>
             if list_ex (\<lambda>folder. list_ex (checkFolder E folder) (split_spaces pats))
                  (ws_folders E)
             then active E i k s1
             else setup_loop E i k rest s1)
      else if ev = ''onFileSystem'' then
        (if (\<exists>sch. arg = Some sch \<and> sch \<in> set (ws_schemes E))
         then active E i k s
         else setup_loop E i k rest (listen k i (OnFileSystem arg) s))
      else setup_loop E i k rest (emit (ShowMessage eventName) s))"

text \<open>
  \<^verbatim>\<open>setupActiveEvents(id, packageJSON)\<close>. The test \<^verbatim>\<open>!activationEvents\<close> holds for a manifest
  without the field; an array, also the empty one, is a truthy value.
\<close>

definition setupActiveEvents :: "env \<Rightarrow> ext_id \<Rightarrow> package_json \<Rightarrow> registry \<Rightarrow> registry" where
  "setupActiveEvents E i pj s =
     (if \<not> canActivate s i then s
      else case pj_activationEvents pj of
        None \<Rightarrow> activate_reported E i s
      | Some evs \<Rightarrow>
          if ''*'' \<in> set evs then activate_reported E i s
          else setup_loop E i (nsetups s) evs (s\<lparr>nsetups := Suc (nsetups s)\<rparr>))"

text \<open>
  \<^verbatim>\<open>createExtension(root, packageJSON, type)\<close>: a new closure with \<^verbatim>\<open>isActive = false\<close> and
  no cached promise is stored under the manifest's name (\<^verbatim>\<open>Map.set\<close> replaces the entry of
  an id that is present and appends otherwise), \<^verbatim>\<open>onDidLoadExtension\<close> fires, and the
  activation events are set up when the registry has been activated. The contributed
  configuration defaults, root patterns and command titles are not part of the model.
\<close>

definition createExtension ::
  "env \<Rightarrow> string \<Rightarrow> package_json \<Rightarrow> ExtensionType \<Rightarrow> registry \<Rightarrow> registry" where
  "createExtension E root pj ty s =
     (let i = pj_name pj;
          a = nclosures s;
          c = \<lparr>c_id = i, c_root = root, c_packageJSON = pj, c_type = ty, isActive = False,
               result = None, ext = False, subscriptions = [], exports = None\<rparr>;
          s1 = s\<lparr>heap := (heap s)(a := c), nclosures := Suc a,
                  extensions := AList.update i a (extensions s)\<rparr>;
          s2 = emit (DidLoad a) s1
      in if activated s2 then setupActiveEvents E i pj s2 else s2)"

text \<open>The router part of \<^verbatim>\<open>activateExtensions\<close>: every item of the map is set up in turn.\<close>

definition activateExtensions :: "env \<Rightarrow> registry \<Rightarrow> registry" where
  "activateExtensions E s =
     fold (\<lambda>(i, a) s. setupActiveEvents E i (c_packageJSON (heap s a)) s)
       (extensions s) (s\<lparr>activated := True\<rparr>)"

subsection \<open>Schedules\<close>

datatype event =
    Activate ext_id
  | Settle pid
  | Resume nat
  | Deactivate ext_id
  | Unload ext_id
  | Create string package_json ExtensionType

definition finish :: "ext_id \<Rightarrow> outcome option \<times> registry \<Rightarrow> registry" where
  "finish i r =
     (case r of
        (None, s) \<Rightarrow> s
      | (Some out, s) \<Rightarrow> s\<lparr>finished := finished s @ [(i, out)]\<rparr>)"

fun step :: "env \<Rightarrow> event \<Rightarrow> registry \<Rightarrow> registry" where
  "step E (Activate i) s = finish i (activate_call E i s)"
| "step E (Settle p) s = settle E p s"
| "step E (Resume k) s =
     (if k < length (frames s) then finish (f_id (frames s ! k)) (activate_resume k s) else s)"
| "step E (Deactivate i) s = snd (deactivate E i s)"
| "step E (Unload i) s = unloadExtension E i s"
| "step E (Create root pj ty) s = createExtension E root pj ty s"

definition exec :: "env \<Rightarrow> event list \<Rightarrow> registry \<Rightarrow> registry" where
  "exec E evs s = fold (step E) evs s"

definition empty_registry :: registry where
  "empty_registry =
     \<lparr>disabled = {}, extensions = [], heap = (\<lambda>_. undefined), nclosures = 0,
      promises = (\<lambda>_. \<lparr>p_owner = 0, p_state = Pending\<rparr>), npromises = 0, frames = [],
      finished = [], effects = [], listeners = [], nsetups = 0, activated = False\<rparr>"

subsection \<open>Observations on a run\<close>

text \<open>
  How often the entry point of the closure at \<open>a\<close> has run, and what the completed
  \<open>activate(i)\<close> calls recorded after the first \<open>n\<close> entries of the list returned or threw.
\<close>

definition is_entry_of :: "addr \<Rightarrow> effect \<Rightarrow> bool" where
  "is_entry_of a e = (case e of EntryPoint b _ \<Rightarrow> b = a | _ \<Rightarrow> False)"

definition entry_runs :: "addr \<Rightarrow> registry \<Rightarrow> nat" where
  "entry_runs a s = length (filter (is_entry_of a) (effects s))"

definition outcomes_from :: "nat \<Rightarrow> ext_id \<Rightarrow> registry \<Rightarrow> outcome list" where
  "outcomes_from n i s = map snd (filter (\<lambda>r. fst r = i) (drop n (finished s)))"

text \<open>
  The shape that the closure variables and the promises of one record have in every state
  the registry can reach: a cached promise belongs to a loaded module, the record is
  active exactly when its cached promise has fulfilled, and a promise of the record that
  is still pending is the cached one.
\<close>

definition closure_ok :: "registry \<Rightarrow> addr \<Rightarrow> bool" where
  "closure_ok s a =
     ((result (heap s a) \<noteq> None \<longrightarrow> ext (heap s a)) \<and>
      (result (heap s a) = None \<longrightarrow> \<not> isActive (heap s a)) \<and>
      (\<forall>p. result (heap s a) = Some p \<longrightarrow>
           p < npromises s \<and> p_owner (promises s p) = a \<and>
           (isActive (heap s a) \<longleftrightarrow> (\<exists>v. p_state (promises s p) = Fulfilled v))) \<and>
      (\<forall>p < npromises s. p_owner (promises s p) = a \<and> p_state (promises s p) = Pending
           \<longrightarrow> result (heap s a) = Some p))"

text \<open>
  What a completed \<open>activate(i)\<close> call can report in a given state, if anything: nothing
  while the activation is in flight or has not been tried on a loadable module.
\<close>

definition verdict :: "env \<Rightarrow> ext_id \<Rightarrow> registry \<Rightarrow> outcome option" where
  "verdict E i s =
     (if isDisabled s i then Some (Thrown (Disabled i))
      else case map_of (extensions s) i of
        None \<Rightarrow> Some (Thrown (NotRegistered i))
      | Some a \<Rightarrow>
          if isActive (heap s a) then Some (Returned True)
          else case result (heap s a) of
            None \<Rightarrow> if loadable E (heap s a) then None else Some (Returned False)
          | Some p \<Rightarrow>
              (case p_state (promises s p) of
                 Rejected e \<Rightarrow> Some (Thrown (ActivationError e))
               | _ \<Rightarrow> None))"

text \<open>The events of a schedule in which \<open>activate(i)\<close> is the only registry method called.\<close>

fun activation_event :: "ext_id \<Rightarrow> event \<Rightarrow> bool" where
  "activation_event i (Activate j) = (j = i)"
| "activation_event i (Settle p) = True"
| "activation_event i (Resume k) = True"
| "activation_event i _ = False"

text \<open>A promise that \<open>settle\<close> acts on: allocated and still pending.\<close>

definition fires :: "pid \<Rightarrow> registry \<Rightarrow> bool" where
  "fires p s = (p < npromises s \<and> p_state (promises s p) = Pending)"

text \<open>
  The invariant of a run of activation events on the record of \<open>i\<close> at address \<open>a\<close>: the
  suspended calls for \<open>i\<close> hold this record and await its cached promise (or nothing,
  when the module does not load); every call completed since the start of the run
  reported the verdict of the current state; the entry point has run \<open>r\<close> times while no
  promise is cached and \<open>r'\<close> times once one is.
\<close>

definition frames_ok :: "env \<Rightarrow> ext_id \<Rightarrow> addr \<Rightarrow> registry \<Rightarrow> bool" where
  "frames_ok E i a s =
     (\<forall>f \<in> set (frames s). f_id f = i \<longrightarrow>
        \<not> isDisabled s i \<and> f_ext f = a \<and> f_awaits f = result (heap s a) \<and>
        (f_awaits f = None \<longrightarrow> \<not> loadable E (heap s a)))"

definition sf_inv ::
  "env \<Rightarrow> ext_id \<Rightarrow> addr \<Rightarrow> nat \<Rightarrow> nat \<Rightarrow> nat \<Rightarrow> registry \<Rightarrow> bool" where
  "sf_inv E i a n r r' s =
     (map_of (extensions s) i = Some a \<and> closure_ok s a \<and> frames_ok E i a s \<and>
      n \<le> length (finished s) \<and>
      (\<forall>out \<in> set (outcomes_from n i s). verdict E i s = Some out) \<and>
      entry_runs a s = (if result (heap s a) = None then r else r') \<and>
      (result (heap s a) = None \<longrightarrow> r' = Suc r))"

definition frame_ok :: "env \<Rightarrow> ext_id \<Rightarrow> addr \<Rightarrow> registry \<Rightarrow> frame \<Rightarrow> bool" where
  "frame_ok E i a s f =
     (f_id f = i \<longrightarrow>
        \<not> isDisabled s i \<and> f_ext f = a \<and> f_awaits f = result (heap s a) \<and>
        (f_awaits f = None \<longrightarrow> \<not> loadable E (heap s a)))"

text \<open>
  The shape of a whole registry: promises belong to allocated closures, every allocated
  closure is in order, and the map points to allocated closures.
\<close>

definition registry_ok :: "registry \<Rightarrow> bool" where
  "registry_ok s =
     ((\<forall>p < npromises s. p_owner (promises s p) < nclosures s) \<and>
      (\<forall>a < nclosures s. closure_ok s a) \<and>
      (\<forall>e \<in> set (extensions s). snd e < nclosures s))"

subsection \<open>A concrete registry\<close>

text \<open>
  An extension \<open>coc-demo\<close> without activation events, in surroundings where its entry
  point fulfils with the exports \<open>100 + p\<close> on the run that creates promise \<open>p\<close>, and
  in surroundings where its entry point rejects.
\<close>

definition demo_pkg :: package_json where
  "demo_pkg = \<lparr>pj_name = ''coc-demo'', pj_main = None,
               pj_engines = Some [(''coc'', ''^0.0.79'')], pj_activationEvents = None\<rparr>"

definition demo_env :: env where
  "demo_env = \<lparr>entry = (\<lambda>p. Resolves (100 + p)), factory = (\<lambda>_ _ _. True),
               has_deactivate = (\<lambda>_. True), pushes = (\<lambda>p. [p]),
               ws_languageIds = {}, ws_filetypes = {}, ws_schemes = [], ws_folders = [],
               checkFolder = (\<lambda>_ _. False)\<rparr>"

definition fail_env :: env where
  "fail_env = demo_env\<lparr>entry := (\<lambda>p. Rejects ''boom'')\<rparr>"

definition demo_closure :: closure where
  "demo_closure = \<lparr>c_id = ''coc-demo'', c_root = ''/ext/coc-demo'', c_packageJSON = demo_pkg,
                   c_type = Global, isActive = False, result = None, ext = False,
                   subscriptions = [], exports = None\<rparr>"

definition demo_registry :: registry where
  "demo_registry = empty_registry\<lparr>extensions := [(''coc-demo'', 0)],
                     heap := (\<lambda>_. demo_closure), nclosures := 1\<rparr>"

text \<open>
  Two calls before the entry point's promise settles, and a third one afterwards.
\<close>

definition demo_schedule :: "event list" where
  "demo_schedule = [Activate ''coc-demo'', Activate ''coc-demo'', Settle 0, Resume 0,
                    Activate ''coc-demo'', Resume 0]"

text \<open>What \<open>deactivate(id)\<close> followed by \<open>activate(id)\<close> (up to its \<open>await\<close>) leaves behind.\<close>

definition reactivate :: "env \<Rightarrow> ext_id \<Rightarrow> registry \<Rightarrow> registry" where
  "reactivate E i s = snd (activate_call E i (snd (deactivate E i s)))"

definition empty_events_pkg :: package_json where
  "empty_events_pkg = demo_pkg\<lparr>pj_activationEvents := Some []\<rparr>"

definition active_registry :: registry where
  "active_registry = exec demo_env [Activate ''coc-demo'', Settle 0, Resume 0] demo_registry"

definition rejected_registry :: registry where
  "rejected_registry = exec fail_env [Activate ''coc-demo'', Settle 0, Resume 0] demo_registry"

text \<open>The events of a schedule in which \<open>activate(i)\<close> and \<open>deactivate(i)\<close> are called.\<close>

fun lifecycle_event :: "ext_id \<Rightarrow> event \<Rightarrow> bool" where
  "lifecycle_event i (Activate j) = (j = i)"
| "lifecycle_event i (Settle p) = True"
| "lifecycle_event i (Resume k) = True"
| "lifecycle_event i (Deactivate j) = (j = i)"
| "lifecycle_event i _ = False"

section \<open>Installer: registry source, package information, installation\<close>

subsection \<open>Strings\<close>

definition starts_with :: "string \<Rightarrow> string \<Rightarrow> bool" where
  "starts_with p s = (take (length p) s = p)"

definition ends_with :: "string \<Rightarrow> string \<Rightarrow> bool" where
  "ends_with p s = (length p \<le> length s \<and> drop (length s - length p) s = p)"

text \<open>\<^verbatim>\<open>String.prototype.replace\<close> with a string pattern: the first occurrence only.\<close>

fun replace_first :: "string \<Rightarrow> string \<Rightarrow> string \<Rightarrow> string" where
  "replace_first pat rep [] = (if pat = [] then rep else [])"
| "replace_first pat rep (c # cs) =
     (if starts_with pat (c # cs) then rep @ drop (length pat) (c # cs)
      else c # replace_first pat rep cs)"

definition LF :: char where "LF = CHR 0x0A"
definition CR :: char where "CR = CHR 0x0D"

text \<open>
  \<^verbatim>\<open>content.split(/\r?\n/)\<close>: a line ends at a line feed, and a carriage return right before
  that line feed belongs to the separator. The text after the last line feed is the last
  line, whatever it ends with. The accumulator holds the current line in reverse.
\<close>

fun split_lines_acc :: "string \<Rightarrow> string \<Rightarrow> string list" where
  "split_lines_acc cur [] = [rev cur]"
| "split_lines_acc cur (c # cs) =
     (if c = LF then
        rev (case cur of d # ds \<Rightarrow> if d = CR then ds else cur | [] \<Rightarrow> cur)
          # split_lines_acc [] cs
      else split_lines_acc (c # cur) cs)"

definition split_lines :: "string \<Rightarrow> string list" where
  "split_lines content = split_lines_acc [] content"

subsection \<open>The registry URL\<close>

text \<open>
  One line of \<^verbatim>\<open>.npmrc\<close> in \<^verbatim>\<open>registryUrl\<close>. A line without \<^verbatim>\<open>=\<close> is skipped. Otherwise
  \<^verbatim>\<open>line.match(/^(.*?)=(.*)$/)\<close> splits at the first \<^verbatim>\<open>=\<close>; the dot does not match a
  carriage return, so on a line that contains one the match is \<^verbatim>\<open>null\<close> and destructuring
  it throws.
\<close>

datatype line_result = NoEntry | Entry string string | MatchFails

definition parse_line :: "string \<Rightarrow> line_result" where
  "parse_line line =
     (if CHR ''='' \<notin> set line then NoEntry
      else if CR \<in> set line then MatchFails
      else Entry (takeWhile (\<lambda>c. c \<noteq> CHR ''='') line)
                 (tl (dropWhile (\<lambda>c. c \<noteq> CHR ''='') line)))"

text \<open>The loop \<^verbatim>\<open>obj[key] = val\<close> over the lines; \<open>None\<close> when a line throws.\<close>

fun read_entries :: "string list \<Rightarrow> (string \<rightharpoonup> string) \<Rightarrow> (string \<rightharpoonup> string) option" where
  "read_entries [] obj = Some obj"
| "read_entries (line # rest) obj =
     (case parse_line line of
        NoEntry \<Rightarrow> read_entries rest obj
      | Entry key val \<Rightarrow> read_entries rest (obj(key \<mapsto> val))
      | MatchFails \<Rightarrow> None)"

definition default_registry :: string where
  "default_registry = ''https://registry.npmjs.org/''"

definition truthy :: "string option \<Rightarrow> bool" where
  "truthy v = (case v of None \<Rightarrow> False | Some x \<Rightarrow> x \<noteq> [])"

definition with_slash :: "string \<Rightarrow> string" where
  "with_slash res = (if ends_with ''/'' res then res else res @ ''/'')"

text \<open>
  \<^verbatim>\<open>registryUrl(scope)\<close>. The first argument is the content of \<^verbatim>\<open>~/.npmrc\<close>, \<open>None\<close> when the
  file does not exist or reading it throws. Any exception inside the \<^verbatim>\<open>try\<close> block leaves
  \<^verbatim>\<open>res\<close> at the default.
\<close>

definition registryUrl :: "string option \<Rightarrow> string \<Rightarrow> string" where
  "registryUrl npmrc scope =
     with_slash
       (case npmrc of
          None \<Rightarrow> default_registry
        | Some content \<Rightarrow>
            (case read_entries (split_lines content) Map.empty of
               None \<Rightarrow> default_registry
             | Some obj \<Rightarrow>
                 if truthy (obj (scope @ '':registry'')) then the (obj (scope @ '':registry''))
                 else if truthy (obj ''registry'') then the (obj ''registry'')
                 else default_registry))"

text \<open>
  The claim's wording, for comparison: the entries of the file are the lines \<open>key=value\<close>
  (split at the first \<^verbatim>\<open>=\<close>), a key's override is the value of its last entry, and an
  override is present when it is not empty.
\<close>

definition entries_of :: "string \<Rightarrow> (string \<times> string) list" where
  "entries_of content =
     map (\<lambda>line. (takeWhile (\<lambda>c. c \<noteq> CHR ''='') line,
                   tl (dropWhile (\<lambda>c. c \<noteq> CHR ''='') line)))
       (filter (\<lambda>line. CHR ''='' \<in> set line) (split_lines content))"

definition override_of :: "string \<Rightarrow> string \<Rightarrow> string option" where
  "override_of key content =
     (case filter (\<lambda>e. fst e = key) (entries_of content) of
        [] \<Rightarrow> None
      | es \<Rightarrow> if snd (last es) = [] then None else Some (snd (last es)))"

definition registry_choice :: "string option \<Rightarrow> string \<Rightarrow> string" where
  "registry_choice npmrc scope =
     (case npmrc of
        None \<Rightarrow> default_registry
      | Some content \<Rightarrow>
          (case override_of (scope @ '':registry'') content of
             Some v \<Rightarrow> v
           | None \<Rightarrow>
               (case override_of ''registry'' content of
                  Some v \<Rightarrow> v
                | None \<Rightarrow> default_registry)))"

text \<open>A carriage return on a line with \<^verbatim>\<open>=\<close>: the case in which parsing throws.\<close>

definition stray_return :: "string \<Rightarrow> bool" where
  "stray_return content =
     list_ex (\<lambda>line. CHR ''='' \<in> set line \<and> CR \<in> set line) (split_lines content)"

subsection \<open>Paths and the file system\<close>

text \<open>
  An absolute path is the list of its segments. \<^verbatim>\<open>path.join\<close> and \<^verbatim>\<open>path.resolve\<close> normalise
  what they are given: empty segments and \<^verbatim>\<open>.\<close> vanish, \<^verbatim>\<open>..\<close> removes the segment before
  it. The accumulator holds the path in reverse.
\<close>

type_synonym path = "string list"

fun norm_acc :: "string list \<Rightarrow> string list \<Rightarrow> path" where
  "norm_acc acc [] = rev acc"
| "norm_acc acc (x # xs) =
     (if x = [] \<or> x = ''.'' then norm_acc acc xs
      else if x = ''..'' then norm_acc (tl acc) xs
      else norm_acc (x # acc) xs)"

definition join :: "path \<Rightarrow> string \<Rightarrow> path" where
  "join dir name = norm_acc (rev dir) (split_on (\<lambda>c. c = CHR ''/'') name)"

definition dirname :: "path \<Rightarrow> path" where
  "dirname p = butlast p"

definition basename :: "string \<Rightarrow> string" where
  "basename exePath = last (split_on (\<lambda>c. c = CHR ''/'') exePath)"

text \<open>
  The fields of a \<^verbatim>\<open>package.json\<close> that the installer reads or writes; the dependency
  manifest of the managed root is such a document with \<open>dependencies\<close> only. Values are
  strings, as \<^verbatim>\<open>Record<string, string>\<close> says; an object is a list of its entries in
  insertion order, which is the order in which \<^verbatim>\<open>Object.keys\<close> and \<^verbatim>\<open>JSON.stringify\<close> go
  through keys that are names.
\<close>

record manifest =
  m_name :: "string option"
  m_version :: "string option"
  m_engines :: "(string \<times> string) list option"
  m_dependencies :: "(string \<times> string) list option"

datatype content = Malformed | Json manifest

datatype node = Dir | File content | Symlink path

record fsys =
  files :: "(path \<times> node) list"
  writes :: "(path \<times> content) list"

text \<open>
  \<^verbatim>\<open>lstat\<close> looks at the path itself, \<^verbatim>\<open>stat\<close> follows symbolic links (at most 40, as
  the operating system does) and fails on a link whose target is missing.
  \<^verbatim>\<open>fs.existsSync\<close> is \<^verbatim>\<open>stat\<close> succeeding, so it is \<^verbatim>\<open>false\<close> on a dangling link.
\<close>

definition lstat :: "fsys \<Rightarrow> path \<Rightarrow> node option" where
  "lstat fs p = map_of (files fs) p"

fun follow :: "nat \<Rightarrow> fsys \<Rightarrow> path \<Rightarrow> node option" where
  "follow 0 fs p = None"
| "follow (Suc n) fs p =
     (case map_of (files fs) p of
        Some (Symlink t) \<Rightarrow> follow n fs t
      | r \<Rightarrow> r)"

definition stat :: "fsys \<Rightarrow> path \<Rightarrow> node option" where
  "stat fs p = follow 40 fs p"

definition existsSync :: "fsys \<Rightarrow> path \<Rightarrow> bool" where
  "existsSync fs p = (stat fs p \<noteq> None)"

text \<open>The helper \<^verbatim>\<open>isSymbolicLink(folder)\<close> of the installer.\<close>

definition isSymbolicLink :: "fsys \<Rightarrow> path \<Rightarrow> bool" where
  "isSymbolicLink fs folder =
     (if existsSync fs folder then
        (case lstat fs folder of Some (Symlink t) \<Rightarrow> True | _ \<Rightarrow> False)
      else False)"

definition under :: "path \<Rightarrow> path \<Rightarrow> bool" where
  "under dir p = (take (length dir) p = dir)"

text \<open>
  \<^verbatim>\<open>fs.removeSync\<close> (the path and everything below it), \<^verbatim>\<open>fs.unlinkSync\<close>, \<^verbatim>\<open>fs.move\<close> with
  \<^verbatim>\<open>overwrite\<close> (the destination is removed, then the source tree is renamed, which fails
  when the source is gone), \<^verbatim>\<open>fs.rmdirSync\<close> (an empty directory only), \<^verbatim>\<open>mkdirp\<close> and
  \<^verbatim>\<open>fs.writeFile\<close>, which is also recorded in the list of writes. A written path is taken
  as it stands, and parent directories are not tracked.
\<close>

datatype ierror =
    NotSupported string
  | NotExists string string
  | NotCocExtension string
  | RequiresCoc "string option" string
  | LoadError path
  | NpmExit string nat
  | TypeError
  | SyntaxError
  | FsError path
  | Failed string

definition removeSync :: "path \<Rightarrow> fsys \<Rightarrow> fsys" where
  "removeSync p fs = fs\<lparr>files := filter (\<lambda>e. \<not> under p (fst e)) (files fs)\<rparr>"

definition unlinkSync :: "path \<Rightarrow> fsys \<Rightarrow> fsys" where
  "unlinkSync p fs = fs\<lparr>files := AList.delete p (files fs)\<rparr>"

definition move :: "path \<Rightarrow> path \<Rightarrow> fsys \<Rightarrow> ierror + fsys" where
  "move src dst fs =
     (let fs1 = removeSync dst fs in
      if map_of (files fs1) src = None then Inl (FsError src)
      else Inr (fs1\<lparr>files :=
             map (\<lambda>e. if under src (fst e) then (dst @ drop (length src) (fst e), snd e) else e)
               (files fs1)\<rparr>))"

definition rmdirSync :: "path \<Rightarrow> fsys \<Rightarrow> ierror + fsys" where
  "rmdirSync p fs =
     (case map_of (files fs) p of
        Some Dir \<Rightarrow>
          if list_ex (\<lambda>e. under p (fst e) \<and> fst e \<noteq> p) (files fs) then Inl (FsError p)
          else Inr (fs\<lparr>files := AList.delete p (files fs)\<rparr>)
      | _ \<Rightarrow> Inl (FsError p))"

definition mkdirp :: "path \<Rightarrow> fsys \<Rightarrow> fsys" where
  "mkdirp p fs = fs\<lparr>files := AList.update p Dir (files fs)\<rparr>"

definition writeFile :: "path \<Rightarrow> content \<Rightarrow> fsys \<Rightarrow> fsys" where
  "writeFile p c fs =
     fs\<lparr>files := AList.update p (File c) (files fs), writes := writes fs @ [(p, c)]\<rparr>"

definition readJson :: "fsys \<Rightarrow> path \<Rightarrow> content option" where
  "readJson fs p = (case stat fs p of Some (File c) \<Rightarrow> Some c | _ \<Rightarrow> None)"

subsection \<open>The installer\<close>

record Info =
  dist_tarball :: "string option"
  engines_coc :: "string option"
  info_version :: "string option"
  info_name :: "string option"

text \<open>What the registry answers for a package, as far as \<^verbatim>\<open>getInfo\<close> reads it.\<close>

record version_doc =
  vd_engines :: "(string \<times> string) list option"
  vd_dist :: "string option option"
  vd_version :: "string option"

record registry_doc =
  rd_name :: "string option"
  rd_dist_tags :: "(string \<times> string) list option"
  rd_versions :: "(string \<times> version_doc) list option"

datatype spawned = SpawnError string | Exit nat

text \<open>
  The surroundings of an installer: the content of \<^verbatim>\<open>~/.npmrc\<close>, the answers of \<^verbatim>\<open>fetch\<close>
  (parsed) for a registry URL and for a raw \<^verbatim>\<open>package.json\<close> URL, the tree that
  \<^verbatim>\<open>download\<close> extracts for a tarball URL (paths relative to the destination), the
  directory that \<^verbatim>\<open>mkdtemp\<close> creates for a prefix, the end of the package manager's
  process, the functions \<^verbatim>\<open>gte\<close> and \<^verbatim>\<open>satisfies\<close> of the \<^verbatim>\<open>semver\<close> library (\<open>None\<close>
  when \<^verbatim>\<open>gte\<close> throws on an invalid version), the version of the host, and
  \<^verbatim>\<open>global.__TEST__\<close>.
\<close>

record ienv =
  npmrc :: "string option"
  fetch_registry :: "string \<Rightarrow> ierror + registry_doc"
  fetch_manifest :: "string \<Rightarrow> ierror + manifest"
  download :: "string \<Rightarrow> ierror + (path \<times> node) list"
  mkdtemp :: "string \<Rightarrow> path"
  spawn_install :: "string \<Rightarrow> string list \<Rightarrow> path \<Rightarrow> spawned"
  semver_gte :: "string \<Rightarrow> string \<Rightarrow> bool option"
  semver_satisfies :: "string \<Rightarrow> string \<Rightarrow> bool"
  workspace_version :: string
  test_mode :: bool

text \<open>
  An \<^verbatim>\<open>Installer\<close> with its fields as the constructor leaves them (\<^verbatim>\<open>name\<close> and
  \<^verbatim>\<open>version\<close> from \<^verbatim>\<open>name@version\<close>, or \<^verbatim>\<open>url\<close>), together with the file system it
  works on and the messages it has emitted.
\<close>

record installer =
  i_root :: path
  i_npm :: string
  i_def :: string
  i_name :: "string option"
  i_url :: "string option"
  i_version :: "string option"
  i_fs :: fsys
  i_messages :: "(string \<times> bool) list"

definition log :: "string \<Rightarrow> bool \<Rightarrow> installer \<Rightarrow> installer" where
  "log msg isProgress s = s\<lparr>i_messages := i_messages s @ [(msg, isProgress)]\<rparr>"

text \<open>A string or \<^verbatim>\<open>undefined\<close> inside a template or a concatenation.\<close>

definition shown :: "string option \<Rightarrow> string" where
  "shown v = (case v of None \<Rightarrow> ''undefined'' | Some x \<Rightarrow> x)"

text \<open>\<^verbatim>\<open>getInfoFromUri\<close>: only \<^verbatim>\<open>github.com\<close>; the manifest need not name an engine.\<close>

definition getInfoFromUri :: "ienv \<Rightarrow> string \<Rightarrow> installer \<Rightarrow> (ierror + Info) \<times> installer" where
  "getInfoFromUri E url0 s =
     (if \<not> starts_with ''https://github.com'' url0 then (Inl (NotSupported url0), s)
      else
        let url1 = (if ends_with ''/'' url0 then butlast url0 else url0);
            branch = (if CHR ''@'' \<in> set url1
                      then tl (dropWhile (\<lambda>c. c \<noteq> CHR ''@'') url1) else ''master'');
            url = takeWhile (\<lambda>c. c \<noteq> CHR ''@'') url1;
            fileUrl = replace_first ''github.com'' ''raw.githubusercontent.com'' url
                        @ ''/'' @ branch @ ''/package.json'';
            s1 = log (''Get info from '' @ fileUrl) False s
        in case fetch_manifest E fileUrl of
             Inl e \<Rightarrow> (Inl e, s1)
           | Inr obj \<Rightarrow>
               (Inr \<lparr>dist_tarball = Some (url @ ''/archive/'' @ branch @ ''.tar.gz''),
                     engines_coc = (case m_engines obj of
                                      None \<Rightarrow> None
                                    | Some es \<Rightarrow> map_of es ''coc''),
                     info_version = m_version obj,
                     info_name = m_name obj\<rparr>,
                s1\<lparr>i_name := m_name obj\<rparr>))"

text \<open>
  \<^verbatim>\<open>getInfo\<close>: a set URL goes to \<^verbatim>\<open>getInfoFromUri\<close>; otherwise the registry is asked, the
  version defaults to the \<^verbatim>\<open>latest\<close> tag, a version the registry does not list is an
  error, and so is a version without \<^verbatim>\<open>engines.coc\<close>.
\<close>

definition getInfo :: "ienv \<Rightarrow> installer \<Rightarrow> (ierror + Info) \<times> installer" where
  "getInfo E s =
     (if truthy (i_url s) then getInfoFromUri E (the (i_url s)) s
      else
        let registry = registryUrl (npmrc E) ''coc.nvim'';
            s1 = log (''Get info from '' @ registry) False s
        in case fetch_registry E (registry @ shown (i_name s1)) of
             Inl e \<Rightarrow> (Inl e, s1)
           | Inr res \<Rightarrow>
               if \<not> truthy (i_version s1) \<and> rd_dist_tags res = None then (Inl TypeError, s1)
               else
                 let s2 = (if truthy (i_version s1) then s1
                           else s1\<lparr>i_version := map_of (the (rd_dist_tags res)) ''latest''\<rparr>)
                 in case rd_versions res of
                      None \<Rightarrow> (Inl TypeError, s2)
                    | Some vs \<Rightarrow>
                        (case map_of vs (shown (i_version s2)) of
                           None \<Rightarrow> (Inl (NotExists (i_def s2) registry), s2)
                         | Some obj \<Rightarrow>
                             let requiredVersion =
                                   (case vd_engines obj of
                                      None \<Rightarrow> None
                                    | Some es \<Rightarrow> map_of es ''coc'')
                             in if \<not> truthy requiredVersion
                                then (Inl (NotCocExtension (i_def s2)), s2)
                                else case vd_dist obj of
                                  None \<Rightarrow> (Inl TypeError, s2)
                                | Some tarball \<Rightarrow>
                                    (Inr \<lparr>dist_tarball = tarball,
                                          engines_coc = requiredVersion,
                                          info_version = vd_version obj,
                                          info_name = rd_name res\<rparr>, s2)))"

text \<open>\<^verbatim>\<open>isNpmCommand\<close>, \<^verbatim>\<open>isYarn\<close> and \<^verbatim>\<open>getInstallArguments\<close>.\<close>

definition isNpmCommand :: "string \<Rightarrow> bool" where
  "isNpmCommand exePath = (basename exePath = ''npm'' \<or> basename exePath = ''npm.CMD'')"

definition isYarn :: "string \<Rightarrow> bool" where
  "isYarn exePath = (basename exePath \<in> set [''yarn'', ''yarn.CMD'', ''yarnpkg'', ''yarnpkg.CMD''])"

definition getInstallArguments :: "string \<Rightarrow> string \<Rightarrow> string list" where
  "getInstallArguments exePath url =
     (if starts_with ''https://github.com'' url then [''install'']
      else [''install'', ''--ignore-scripts'', ''--no-lockfile'', ''--production''])
     @ (if isNpmCommand exePath then [''--legacy-peer-deps'', ''--no-global''] else [])
     @ (if isYarn exePath then [''--ignore-engines''] else [])"

text \<open>\<^verbatim>\<open>getDependencies\<close>: the dependencies of a manifest without the development tools.\<close>

definition getDependencies :: "content \<Rightarrow> (string \<times> string) list" where
  "getDependencies c =
     filter (\<lambda>e. fst e \<notin> set [''coc.nvim'', ''esbuild'', ''webpack'', ''@types/node''])
       (case c of
          Malformed \<Rightarrow> []
        | Json obj \<Rightarrow> (case m_dependencies obj of None \<Rightarrow> [] | Some ds \<Rightarrow> ds))"

definition caret_to_gte :: "string \<Rightarrow> string" where
  "caret_to_gte r = (case r of c # cs \<Rightarrow> if c = CHR ''^'' then ''>='' @ cs else r | [] \<Rightarrow> r)"

definition required_of :: "Info \<Rightarrow> string" where
  "required_of info =
     (if truthy (engines_coc info) then caret_to_gte (the (engines_coc info)) else [])"

text \<open>
  The path of the dependency manifest,
  \<^verbatim>\<open>path.resolve(this.root, global.__TEST__ ? '' : '..', 'package.json')\<close>.
\<close>

definition manifest_path :: "ienv \<Rightarrow> path \<Rightarrow> path" where
  "manifest_path E root = join (join root (if test_mode E then [] else ''..'')) ''package.json''"

definition only_dependencies :: "(string \<times> string) list \<Rightarrow> manifest" where
  "only_dependencies ds =
     \<lparr>m_name = None, m_version = None, m_engines = None, m_dependencies = Some ds\<rparr>"

definition empty_object :: manifest where
  "empty_object = \<lparr>m_name = None, m_version = None, m_engines = None, m_dependencies = None\<rparr>"

text \<open>
  \<^verbatim>\<open>Object.keys(deps).sort().forEach(k => sorted[k] = deps[k])\<close>: the entries in the order
  of their sorted keys.
\<close>

definition sorted_entries :: "(string \<times> string) list \<Rightarrow> (string \<times> string) list" where
  "sorted_entries ds = map (\<lambda>k. (k, the (map_of ds k))) (sort (map fst ds))"

definition on_fs :: "(fsys \<Rightarrow> fsys) \<Rightarrow> installer \<Rightarrow> installer" where
  "on_fs f s = s\<lparr>i_fs := f (i_fs s)\<rparr>"

text \<open>
  The last part of \<^verbatim>\<open>doInstall\<close>, from the dependency manifest on: it is created as \<^verbatim>\<open>{}\<close>
  when missing (\<open>ensure_manifest\<close>), read, given the entry of this package (the URL for a
  URL install, else \<^verbatim>\<open>>=\<close> and the version) and sorted (\<open>pinned_entries\<close>); what is at the
  install folder is removed (\<open>clear_folder\<close>), the temporary folder is moved there, the
  manifest is written, and what is left of the temporary folder is removed (\<open>place\<close>).
\<close>

definition ensure_manifest :: "path \<Rightarrow> installer \<Rightarrow> installer" where
  "ensure_manifest jsonFile s =
     (if \<not> existsSync (i_fs s) jsonFile
      then on_fs (writeFile jsonFile (Json empty_object)) s else s)"

definition pinned_entries :: "installer \<Rightarrow> Info \<Rightarrow> string \<Rightarrow> manifest \<Rightarrow> (string \<times> string) list" where
  "pinned_entries s info nm obj =
     sorted_entries
       (AList.update nm
          (if truthy (i_url s) then the (i_url s) else ''>='' @ shown (info_version info))
          (case m_dependencies obj of None \<Rightarrow> [] | Some ds \<Rightarrow> ds))"

text \<open>
  Modelled from the spec: \<^verbatim>\<open>statAsync\<close> of \<^verbatim>\<open>util/fs\<close>, which is not part of the sources
  at hand: the \<^verbatim>\<open>stat\<close> of a path, or \<^verbatim>\<open>null\<close> when there is none. A directory found
  there is removed with its content, anything else is unlinked.
\<close>

definition clear_folder :: "path \<Rightarrow> installer \<Rightarrow> installer" where
  "clear_folder folder s =
     (case stat (i_fs s) folder of
        None \<Rightarrow> s
      | Some Dir \<Rightarrow> on_fs (removeSync folder) s
      | Some _ \<Rightarrow> on_fs (unlinkSync folder) s)"

definition place ::
  "path \<Rightarrow> path \<Rightarrow> path \<Rightarrow> content \<Rightarrow> installer \<Rightarrow> (ierror + bool) \<times> installer" where
  "place jsonFile folder tmpFolder c s =
     (case move tmpFolder folder (i_fs s) of
        Inl e \<Rightarrow> (Inl e, s)
      | Inr fs1 \<Rightarrow>
          let s1 = s\<lparr>i_fs := writeFile jsonFile c fs1\<rparr>
          in if existsSync (i_fs s1) tmpFolder then
               (case rmdirSync tmpFolder (i_fs s1) of
                  Inl e \<Rightarrow> (Inl e, s1)
                | Inr fs2 \<Rightarrow>
                    (Inr True, log (''Installed extension '' @ shown (i_name s1)) False
                                 (s1\<lparr>i_fs := fs2\<rparr>)))
             else (Inr True, log (''Installed extension '' @ shown (i_name s1)) False s1))"

definition finish_install ::
  "ienv \<Rightarrow> Info \<Rightarrow> string \<Rightarrow> path \<Rightarrow> path \<Rightarrow> installer \<Rightarrow> (ierror + bool) \<times> installer" where
  "finish_install E info nm folder tmpFolder s =
     (let jsonFile = manifest_path E (i_root s);
          s1 = ensure_manifest jsonFile s
      in case readJson (i_fs s1) jsonFile of
           None \<Rightarrow> (Inl (FsError jsonFile), s1)
         | Some Malformed \<Rightarrow> (Inl (LoadError jsonFile), s1)
         | Some (Json obj) \<Rightarrow>
             place jsonFile folder tmpFolder
               (Json (only_dependencies (pinned_entries s1 info nm obj)))
               (clear_folder folder s1))"

text \<open>
  \<^verbatim>\<open>doInstall(info)\<close>: nothing happens on a symbolic link; otherwise the tarball is
  extracted into a new temporary folder, the package manager runs there when the package
  has dependencies, and the installation is finished as above. The progress messages of
  the download and of the package manager are left out.
\<close>

definition doInstall :: "ienv \<Rightarrow> Info \<Rightarrow> installer \<Rightarrow> (ierror + bool) \<times> installer" where
  "doInstall E info s =
     (case info_name info of
        None \<Rightarrow> (Inl TypeError, s)
      | Some nm \<Rightarrow>
          let folder = join (i_root s) nm in
          if isSymbolicLink (i_fs s) folder then (Inr False, s)
          else
            let tmpFolder = mkdtemp E (replace_first ''/'' ''-'' nm @ ''-'');
                s1 = log (''Downloading from '' @ shown (dist_tarball info)) False
                       (on_fs (mkdirp tmpFolder) s)
            in case (case dist_tarball info of
                       None \<Rightarrow> Inl TypeError
                     | Some url \<Rightarrow> download E url) of
                 Inl e \<Rightarrow> (Inl e, s1)
               | Inr tree \<Rightarrow>
                   let s2 = log ''Extension download at'' False
                              (on_fs (\<lambda>fs. fs\<lparr>files :=
                                 fold (\<lambda>e. AList.update (tmpFolder @ fst e) (snd e)) tree
                                   (files fs)\<rparr>) s1)
                   in case readJson (i_fs s2) (tmpFolder @ [''package.json'']) of
                        None \<Rightarrow> (Inl (FsError (tmpFolder @ [''package.json''])), s2)
                      | Some c \<Rightarrow>
                          if getDependencies c \<noteq> [] then
                            (let args = getInstallArguments (i_npm s2)
                                          (the (dist_tarball info));
                                 s3 = log ''Installing dependencies'' False s2
                             in case spawn_install E (i_npm s2) args tmpFolder of
                                  SpawnError m \<Rightarrow> (Inl (Failed m), s3)
                                | Exit code \<Rightarrow>
                                    if code \<noteq> 0 then (Inl (NpmExit (i_npm s2) code), s3)
                                    else finish_install E info nm folder tmpFolder s3)
                          else finish_install E info nm folder tmpFolder s2)"

text \<open>The version in the \<^verbatim>\<open>package.json\<close> of the installed folder, as \<^verbatim>\<open>update\<close> reads it.\<close>

definition installed_version :: "fsys \<Rightarrow> path \<Rightarrow> ierror + string option" where
  "installed_version fs folder =
     (if existsSync fs (folder @ [''package.json'']) then
        (case readJson fs (folder @ [''package.json'']) of
           None \<Rightarrow> Inl (FsError (folder @ [''package.json'']))
         | Some Malformed \<Rightarrow> Inl SyntaxError
         | Some (Json obj) \<Rightarrow> Inr (m_version obj))
      else Inr None)"

text \<open>
  What \<^verbatim>\<open>install\<close> and \<^verbatim>\<open>update\<close> do once the information is there and no early return
  applies: the engine check, then \<^verbatim>\<open>doInstall\<close>.
\<close>

definition check_engine :: "ienv \<Rightarrow> Info \<Rightarrow> bool" where
  "check_engine E info =
     (required_of info = [] \<or> semver_satisfies E (workspace_version E) (required_of info))"

definition install :: "ienv \<Rightarrow> installer \<Rightarrow> (ierror + string option) \<times> installer" where
  "install E s =
     (case getInfo E (log (''Using npm from: '' @ i_npm s) False s) of
        (Inl e, s1) \<Rightarrow> (Inl e, s1)
      | (Inr info, s1) \<Rightarrow>
          if \<not> check_engine E info
          then (Inl (RequiresCoc (info_version info) (required_of info)), s1)
          else (case doInstall E info s1 of
                  (Inl e, s2) \<Rightarrow> (Inl e, s2)
                | (Inr ok, s2) \<Rightarrow> (Inr (info_name info), s2)))"

definition reinstall :: "ienv \<Rightarrow> Info \<Rightarrow> installer \<Rightarrow> (ierror + path option) \<times> installer" where
  "reinstall E info s =
     (if \<not> check_engine E info
      then (Inl (RequiresCoc (info_version info) (required_of info)), s)
      else (case doInstall E info s of
              (Inl e, s1) \<Rightarrow> (Inl e, s1)
            | (Inr ok, s1) \<Rightarrow>
                (Inr (Some (join (i_root s1) (shown (info_name info)))),
                 log (''Updated to v'' @ shown (info_version info)) False s1)))"

text \<open>
  \<^verbatim>\<open>update(url)\<close>: \<^verbatim>\<open>undefined\<close> (here \<open>Inr None\<close>) for a symbolic link and, in the part after
  \<^verbatim>\<open>getInfo\<close> (\<open>update_decide\<close>), for an installed version that \<^verbatim>\<open>semver.gte\<close> finds at
  least as new as the resolved one.
\<close>

definition update_decide ::
  "ienv \<Rightarrow> string option \<Rightarrow> (ierror + Info) \<times> installer \<Rightarrow> (ierror + path option) \<times> installer" where
  "update_decide E version r =
     (case r of
        (Inl e, s1) \<Rightarrow> (Inl e, s1)
      | (Inr info, s1) \<Rightarrow>
          if truthy version \<and> truthy (info_version info) then
            (case semver_gte E (the version) (the (info_version info)) of
               None \<Rightarrow> (Inl TypeError, s1)
             | Some True \<Rightarrow>
                 (Inr None,
                  log (''Current version '' @ the version @ '' is up to date.'') False s1)
             | Some False \<Rightarrow> reinstall E info s1)
          else reinstall E info s1)"

definition update :: "ienv \<Rightarrow> string option \<Rightarrow> installer \<Rightarrow> (ierror + path option) \<times> installer" where
  "update E url s0 =
     (let s = s0\<lparr>i_url := url\<rparr> in
      case i_name s of
        None \<Rightarrow> (Inl TypeError, s)
      | Some nm \<Rightarrow>
          let folder = join (i_root s) nm in
          if isSymbolicLink (i_fs s) folder
          then (Inr None, log ''Skipped update for symbol link'' False s)
          else case installed_version (i_fs s) folder of
            Inl e \<Rightarrow> (Inl e, s)
          | Inr version \<Rightarrow>
              update_decide E version
                (getInfo E (log (''Using npm from: '' @ i_npm s) False s)))"

text \<open>
  The version that \<^verbatim>\<open>getInfo\<close> looks up in the registry's answer: the pinned one, or the
  \<^verbatim>\<open>latest\<close> tag.
\<close>

definition resolved_version :: "installer \<Rightarrow> registry_doc \<Rightarrow> string" where
  "resolved_version s res =
     shown (if truthy (i_version s) then i_version s
            else map_of (the (rd_dist_tags res)) ''latest'')"

definition engine_of :: "version_doc \<Rightarrow> string option" where
  "engine_of obj = (case vd_engines obj of None \<Rightarrow> None | Some es \<Rightarrow> map_of es ''coc'')"

subsection \<open>A concrete installer\<close>

text \<open>
  A stand-in for the \<^verbatim>\<open>semver\<close> library on plain versions \<open>x.y.z\<close> and ranges \<open>>=x.y.z\<close>,
  for the concrete runs below.
\<close>

definition digit_of :: "char \<Rightarrow> nat option" where
  "digit_of c =
     (if CHR ''0'' \<le> c \<and> c \<le> CHR ''9'' then Some (of_char c - of_char CHR ''0'') else None)"

fun number_acc :: "nat \<Rightarrow> string \<Rightarrow> nat option" where
  "number_acc n [] = Some n"
| "number_acc n (c # cs) =
     (case digit_of c of None \<Rightarrow> None | Some d \<Rightarrow> number_acc (10 * n + d) cs)"

definition number_of :: "string \<Rightarrow> nat option" where
  "number_of s = (if s = [] then None else number_acc 0 s)"

definition plain_version :: "string \<Rightarrow> (nat \<times> nat \<times> nat) option" where
  "plain_version s =
     (case map number_of (split_on (\<lambda>c. c = CHR ''.'') s) of
        [Some x, Some y, Some z] \<Rightarrow> Some (x, y, z)
      | _ \<Rightarrow> None)"

definition plain_gte :: "string \<Rightarrow> string \<Rightarrow> bool option" where
  "plain_gte a b =
     (case (plain_version a, plain_version b) of
        (Some (x, y, z), Some (x', y', z')) \<Rightarrow>
          Some (x' < x \<or> (x' = x \<and> (y' < y \<or> (y' = y \<and> z' \<le> z))))
      | _ \<Rightarrow> None)"

definition plain_satisfies :: "string \<Rightarrow> string \<Rightarrow> bool" where
  "plain_satisfies v r = (starts_with ''>='' r \<and> plain_gte v (drop 2 r) = Some True)"

definition demo_version_doc :: version_doc where
  "demo_version_doc =
     \<lparr>vd_engines = Some [(''coc'', ''^0.0.1'')],
      vd_dist = Some (Some ''https://example/demo-ext-1.2.0.tgz''),
      vd_version = Some ''1.2.0''\<rparr>"

definition demo_registry_doc :: registry_doc where
  "demo_registry_doc =
     \<lparr>rd_name = Some ''demo-ext'', rd_dist_tags = Some [(''latest'', ''1.2.0'')],
      rd_versions = Some [(''1.2.0'', demo_version_doc)]\<rparr>"

definition demo_manifest :: manifest where
  "demo_manifest = \<lparr>m_name = Some ''demo-ext'', m_version = Some ''1.2.0'',
                    m_engines = Some [(''coc'', ''^0.0.1'')], m_dependencies = None\<rparr>"

text \<open>A snippet collection on GitHub whose manifest names no \<^verbatim>\<open>coc\<close> engine.\<close>

definition snippets_manifest :: manifest where
  "snippets_manifest = \<lparr>m_name = Some ''vue-snippets'', m_version = Some ''0.1.0'',
                        m_engines = Some [(''vscode'', ''^1.0.0'')], m_dependencies = None\<rparr>"

definition demo_ienv :: ienv where
  "demo_ienv =
     \<lparr>npmrc = None,
      fetch_registry = (\<lambda>u. if u = ''https://registry.npmjs.org/demo-ext''
                             then Inr demo_registry_doc else Inl (Failed u)),
      fetch_manifest =
        (\<lambda>u. if u = ''https://raw.githubusercontent.com/acme/vue-snippets/main/package.json''
              then Inr snippets_manifest else Inl (Failed u)),
      download = (\<lambda>u. if u = ''https://example/demo-ext-1.2.0.tgz''
                       then Inr [([''package.json''], File (Json demo_manifest))]
                       else Inl (Failed u)),
      mkdtemp = (\<lambda>prefix. [''tmp'', prefix @ ''Xa1b2c'']),
      spawn_install = (\<lambda>exe args cwd. Exit 0),
      semver_gte = plain_gte,
      semver_satisfies = plain_satisfies,
      workspace_version = ''0.0.5'',
      test_mode = False\<rparr>"

definition modules :: path where
  "modules = [''data'', ''extensions'', ''node_modules'']"

definition root_manifest :: manifest where
  "root_manifest = only_dependencies [(''z-ext'', ''>=0.3.0''), (''a-ext'', ''>=2.0.0'')]"

definition base_files :: "(path \<times> node) list" where
  "base_files =
     [([''data'', ''extensions''], Dir),
      ([''data'', ''extensions'', ''node_modules''], Dir),
      ([''data'', ''extensions'', ''package.json''], File (Json root_manifest))]"

definition demo_installer :: installer where
  "demo_installer =
     \<lparr>i_root = modules, i_npm = ''/usr/bin/npm'', i_def = ''demo-ext'',
      i_name = Some ''demo-ext'', i_url = None, i_version = None,
      i_fs = \<lparr>files = base_files, writes = []\<rparr>, i_messages = []\<rparr>"

text \<open>The same with \<open>demo-ext\<close> installed at version 1.2.0.\<close>

definition installed_installer :: installer where
  "installed_installer =
     demo_installer\<lparr>i_fs := \<lparr>files = base_files @
        [(modules @ [''demo-ext''], Dir),
         (modules @ [''demo-ext'', ''package.json''], File (Json demo_manifest))],
        writes = []\<rparr>\<rparr>"

text \<open>The same with the install folder a symbolic link to a checkout that is gone.\<close>

definition dangling_installer :: installer where
  "dangling_installer =
     demo_installer\<lparr>i_fs := \<lparr>files = base_files @
        [(modules @ [''demo-ext''], Symlink [''src'', ''demo-ext''])], writes = []\<rparr>\<rparr>"

text \<open>The same with the install folder a symbolic link to a checkout that exists.\<close>

definition linked_installer :: installer where
  "linked_installer =
     demo_installer\<lparr>i_fs := \<lparr>files = base_files @
        [(modules @ [''demo-ext''], Symlink [''src'', ''demo-ext'']),
         ([''src'', ''demo-ext''], Dir)], writes = []\<rparr>\<rparr>"

definition url_installer :: installer where
  "url_installer =
     demo_installer\<lparr>i_def := ''https://github.com/acme/vue-snippets@main'', i_name := None,
                    i_url := Some ''https://github.com/acme/vue-snippets@main''\<rparr>"

definition scoped_npmrc :: string where
  "scoped_npmrc = ''coc.nvim:registry=https://c.example'' @ [CR, LF]
                  @ ''registry=https://r.example/'' @ [LF]"

text \<open>A file whose last line ends with a carriage return and no line feed.\<close>

definition cr_npmrc :: string where
  "cr_npmrc = ''coc.nvim:registry=https://c.example/'' @ [LF] @ ''color=true'' @ [CR]"

subsection \<open>The dependency manifest in the registry\<close>

text \<open>
  \<^verbatim>\<open>Extensions.checkRoot(root)\<close>, as far as files go: the root is made a directory and a
  manifest with no dependencies is written when there is none.
\<close>

definition checkRoot :: "path \<Rightarrow> fsys \<Rightarrow> bool \<times> fsys" where
  "checkRoot root fs =
     (let fs1 = (if \<not> existsSync fs root then mkdirp root fs else fs) in
      case stat fs1 root of
        None \<Rightarrow> (False, fs1)
      | Some n \<Rightarrow>
          let fs2 = (case n of File c \<Rightarrow> mkdirp root (unlinkSync root fs1) | _ \<Rightarrow> fs1);
              jsonFile = join root ''package.json''
          in (True, if \<not> existsSync fs2 jsonFile
                    then writeFile jsonFile (Json (only_dependencies [])) fs2 else fs2))"

text \<open>
  \<^verbatim>\<open>Extensions.loadJson()\<close>: \<^verbatim>\<open>null\<close> without a manifest file; a file that does not parse
  is reported and counted as no data here.
\<close>

definition loadJson :: "path \<Rightarrow> fsys \<Rightarrow> ierror + manifest option" where
  "loadJson root fs =
     (let jsonFile = join root ''package.json'' in
      if \<not> existsSync fs jsonFile then Inr None
      else case readJson fs jsonFile of
             None \<Rightarrow> Inl (FsError jsonFile)
           | Some Malformed \<Rightarrow> Inr None
           | Some (Json obj) \<Rightarrow> Inr (Some obj))"

definition globalExtensions :: "manifest option \<Rightarrow> string list" where
  "globalExtensions json =
     (case json of
        None \<Rightarrow> []
      | Some obj \<Rightarrow> (case m_dependencies obj of None \<Rightarrow> [] | Some ds \<Rightarrow> map fst ds))"

text \<open>
  One round of the loop of \<^verbatim>\<open>uninstallExtension\<close>: the extension is unloaded, its entry
  leaves the dependencies, and its folder is removed when it exists.
\<close>

definition uninstall_one ::
  "env \<Rightarrow> path \<Rightarrow> ext_id \<Rightarrow> registry \<times> fsys \<times> (string \<times> string) list option
     \<Rightarrow> registry \<times> fsys \<times> (string \<times> string) list option" where
  "uninstall_one E modulesFolder i st =
     (case st of (r, fs, deps) \<Rightarrow>
        (unloadExtension E i r,
         if existsSync fs (join modulesFolder i) then removeSync (join modulesFolder i) fs else fs,
         map_option (AList.delete i) deps))"

text \<open>
  Modelled from the spec: \<^verbatim>\<open>splitArray\<close> of \<^verbatim>\<open>util/array\<close>, which is not part of the
  sources at hand: the elements that satisfy the test, and the others.
\<close>

definition splitArray :: "'a list \<Rightarrow> ('a \<Rightarrow> bool) \<Rightarrow> 'a list \<times> 'a list" where
  "splitArray xs P = (filter P xs, filter (\<lambda>x. \<not> P x) xs)"

text \<open>
  \<^verbatim>\<open>uninstallExtension(ids)\<close> on the registry rooted at \<open>root\<close>. Ids that are not keys of
  the manifest are reported and skipped; the others are uninstalled one by one, and the
  manifest is rewritten with sorted keys. An exception on the way is caught and reported.
\<close>

definition uninstallExtension ::
  "env \<Rightarrow> bool \<Rightarrow> path \<Rightarrow> ext_id list \<Rightarrow> registry \<times> fsys \<Rightarrow> registry \<times> fsys" where
  "uninstallExtension E test root ids w =
     (case w of (r, fs) \<Rightarrow>
        if ids = [] then (r, fs)
        else case loadJson root fs of
          Inl e \<Rightarrow> (emit (ShowMessage ''Uninstall failed'') r, fs)
        | Inr json \<Rightarrow>
            let (globals, filtered) = splitArray ids (\<lambda>i. i \<in> set (globalExtensions json));
                r1 = (if filtered \<noteq> [] then emit (ShowMessage ''not global extensions'') r
                      else r);
                deps = (case json of None \<Rightarrow> Some [] | Some obj \<Rightarrow> m_dependencies obj);
                modulesFolder = join root (if test then [] else ''node_modules'')
            in case fold (uninstall_one E modulesFolder) globals (r1, fs, deps) of
                 (r2, fs2, None) \<Rightarrow> (emit (ShowMessage ''Uninstall failed'') r2, fs2)
               | (r2, fs2, Some ds) \<Rightarrow>
                   (emit (ShowMessage ''Removed'') r2,
                    writeFile (join root ''package.json'')
                      (Json (only_dependencies (sorted_entries ds))) fs2))"

text \<open>
  A manifest document whose dependency keys are in sorted order, and the relation between
  a file system and a later one in which every write in between went to the manifest at
  \<open>p\<close> and wrote such a document.
\<close>

definition sorted_keys :: "content \<Rightarrow> bool" where
  "sorted_keys c =
     (case c of
        Malformed \<Rightarrow> False
      | Json obj \<Rightarrow> (case m_dependencies obj of None \<Rightarrow> True | Some ds \<Rightarrow> sorted (map fst ds)))"

definition sorted_writes :: "path \<Rightarrow> fsys \<Rightarrow> fsys \<Rightarrow> bool" where
  "sorted_writes p fs fs' =
     (\<exists>ws. writes fs' = writes fs @ ws \<and> list_all (\<lambda>w. fst w = p \<and> sorted_keys (snd w)) ws)"

text \<open>What \<open>getInfo\<close> resolves for \<open>demo-ext\<close>.\<close>

definition demo_info :: Info where
  "demo_info = \<lparr>dist_tarball = Some ''https://example/demo-ext-1.2.0.tgz'',
                engines_coc = Some ''^0.0.1'', info_version = Some ''1.2.0'',
                info_name = Some ''demo-ext''\<rparr>"

section \<open>Properties of the registry\<close>

subsection \<open>What the operations do to a record and its promises\<close>

lemma settle_frame [simp]:
  "disabled (settle E p s) = disabled s"
  "extensions (settle E p s) = extensions s"
  "frames (settle E p s) = frames s"
  "finished (settle E p s) = finished s"
  "effects (settle E p s) = effects s"
  "npromises (settle E p s) = npromises s"
  "nclosures (settle E p s) = nclosures s"
  by (simp_all add: settle_def Let_def split: behaviour.splits)

lemma settle_owner [simp]: "p_owner (promises (settle E p s) q) = p_owner (promises s q)"
  by (simp add: settle_def Let_def split: behaviour.splits)

lemma settle_state:
  "p_state (promises (settle E p s) q) =
     (if q = p \<and> fires p s then
        (case entry E p of Resolves v \<Rightarrow> Fulfilled v | Rejects e \<Rightarrow> Rejected e | _ \<Rightarrow> Pending)
      else p_state (promises s q))"
  by (simp add: settle_def fires_def Let_def split: behaviour.splits)

lemma settle_heap:
  "heap (settle E p s) a =
     (if fires p s \<and> p_owner (promises s p) = a then
        (case entry E p of
           Resolves v \<Rightarrow> (heap s a)\<lparr>isActive := True, exports := Some v\<rparr>
         | _ \<Rightarrow> heap s a)
      else heap s a)"
  by (simp add: settle_def fires_def Let_def split: behaviour.splits)

lemma closure_okI:
  assumes "result (heap s a) \<noteq> None \<Longrightarrow> ext (heap s a)"
    and "result (heap s a) = None \<Longrightarrow> \<not> isActive (heap s a)"
    and "\<And>p. result (heap s a) = Some p \<Longrightarrow> p < npromises s"
    and "\<And>p. result (heap s a) = Some p \<Longrightarrow> p_owner (promises s p) = a"
    and "\<And>p. result (heap s a) = Some p \<Longrightarrow>
           isActive (heap s a) = (\<exists>v. p_state (promises s p) = Fulfilled v)"
    and "\<And>p. p < npromises s \<Longrightarrow> p_owner (promises s p) = a \<Longrightarrow>
           p_state (promises s p) = Pending \<Longrightarrow> result (heap s a) = Some p"
  shows "closure_ok s a"
  unfolding closure_ok_def using assms by blast

lemma closure_okD:
  assumes "closure_ok s a"
  shows "result (heap s a) \<noteq> None \<Longrightarrow> ext (heap s a)"
    and "result (heap s a) = None \<Longrightarrow> \<not> isActive (heap s a)"
    and "result (heap s a) = Some p \<Longrightarrow> p < npromises s"
    and "result (heap s a) = Some p \<Longrightarrow> p_owner (promises s p) = a"
    and "result (heap s a) = Some p \<Longrightarrow>
           isActive (heap s a) = (\<exists>v. p_state (promises s p) = Fulfilled v)"
    and "p < npromises s \<Longrightarrow> p_owner (promises s p) = a \<Longrightarrow>
           p_state (promises s p) = Pending \<Longrightarrow> result (heap s a) = Some p"
  using assms unfolding closure_ok_def by blast+

lemma settle_closure_ok:
  assumes ok: "closure_ok s a"
  shows "closure_ok (settle E p s) a"
proof (cases "fires p s \<and> p_owner (promises s p) = a")
  case False
  then have h: "heap (settle E p s) a = heap s a" by (auto simp add: settle_heap)
  have st: "p_state (promises (settle E p s) q) = p_state (promises s q)"
    if "p_owner (promises s q) = a" for q
    using that False by (auto simp: settle_state)
  show ?thesis
  proof (rule closure_okI)
    fix q assume "result (heap (settle E p s) a) = Some q"
    then have r: "result (heap s a) = Some q" by (simp add: h)
    show "q < npromises (settle E p s)" using closure_okD(3)[OF ok r] by simp
    show "p_owner (promises (settle E p s) q) = a" using closure_okD(4)[OF ok r] by simp
    show "isActive (heap (settle E p s) a) = (\<exists>v. p_state (promises (settle E p s) q) = Fulfilled v)"
      using closure_okD(5)[OF ok r] closure_okD(4)[OF ok r] by (simp add: h st)
  next
    fix q assume "q < npromises (settle E p s)" "p_owner (promises (settle E p s) q) = a"
      "p_state (promises (settle E p s) q) = Pending"
    then show "result (heap (settle E p s) a) = Some q"
      using closure_okD(6)[OF ok, of q] by (simp add: h st)
  qed (use closure_okD(1,2)[OF ok] in \<open>simp_all add: h\<close>)
next
  case True
  then have f: "fires p s" and o: "p_owner (promises s p) = a" by simp_all
  have r: "result (heap s a) = Some p"
    using closure_okD(6)[OF ok, of p] f o by (simp add: fires_def)
  have na: "\<not> isActive (heap s a)"
    using closure_okD(5)[OF ok r] f by (simp add: fires_def)
  have rr: "result (heap (settle E p s) a) = Some p"
    using r f o by (simp add: settle_heap split: behaviour.splits)
  have ee: "ext (heap (settle E p s) a) = ext (heap s a)"
    using f o by (simp add: settle_heap split: behaviour.splits)
  have aa: "isActive (heap (settle E p s) a) = (\<exists>v. entry E p = Resolves v)"
    using f o na by (simp add: settle_heap split: behaviour.splits)
  have pp: "p_state (promises (settle E p s) p) =
       (case entry E p of Resolves v \<Rightarrow> Fulfilled v | Rejects e \<Rightarrow> Rejected e | _ \<Rightarrow> Pending)"
    using f by (simp add: settle_state)
  show ?thesis
  proof (rule closure_okI)
    fix q assume "result (heap (settle E p s) a) = Some q"
    then have q: "q = p" by (simp add: rr)
    show "q < npromises (settle E p s)" using f q by (simp add: fires_def)
    show "p_owner (promises (settle E p s) q) = a" using o q by simp
    show "isActive (heap (settle E p s) a) = (\<exists>v. p_state (promises (settle E p s) q) = Fulfilled v)"
      unfolding q aa pp by (cases "entry E p") simp_all
  next
    fix q assume a1: "q < npromises (settle E p s)" "p_owner (promises (settle E p s) q) = a"
      "p_state (promises (settle E p s) q) = Pending"
    show "result (heap (settle E p s) a) = Some q"
    proof (cases "q = p")
      case True then show ?thesis by (simp add: rr)
    next
      case False
      then have "p_state (promises s q) = Pending" using a1 by (simp add: settle_state)
      then have "result (heap s a) = Some q" using closure_okD(6)[OF ok, of q] a1 by simp
      then show ?thesis using r False by simp
    qed
  qed (use closure_okD(1)[OF ok] r in \<open>simp_all add: rr ee\<close>)
qed

lemma activate_call_disabled:
  "isDisabled s i \<Longrightarrow> activate_call E i s = (Some (Thrown (Disabled i)), s)"
  by (simp add: activate_call_def)

lemma activate_call_unknown:
  "\<not> isDisabled s i \<Longrightarrow> map_of (extensions s) i = None \<Longrightarrow>
   activate_call E i s = (Some (Thrown (NotRegistered i)), s)"
  by (simp add: activate_call_def)

lemma activate_call_active:
  "\<not> isDisabled s i \<Longrightarrow> map_of (extensions s) i = Some a \<Longrightarrow> isActive (heap s a) \<Longrightarrow>
   activate_call E i s = (Some (Returned True), s)"
  by (simp add: activate_call_def)

lemma activate_call_cached:
  "\<not> isDisabled s i \<Longrightarrow> map_of (extensions s) i = Some a \<Longrightarrow> \<not> isActive (heap s a) \<Longrightarrow>
   result (heap s a) = Some p \<Longrightarrow>
   activate_call E i s =
     (None, s\<lparr>frames := frames s @ [\<lparr>f_id = i, f_ext = a, f_awaits = Some p\<rparr>]\<rparr>)"
  by (simp add: activate_call_def ext_activate_def)

lemma activate_call_unloadable:
  "\<not> isDisabled s i \<Longrightarrow> map_of (extensions s) i = Some a \<Longrightarrow> \<not> isActive (heap s a) \<Longrightarrow>
   result (heap s a) = None \<Longrightarrow> \<not> loadable E (heap s a) \<Longrightarrow>
   activate_call E i s =
     (None, s\<lparr>effects := effects s @ [LogError (c_id (heap s a))],
              frames := frames s @ [\<lparr>f_id = i, f_ext = a, f_awaits = None\<rparr>]\<rparr>)"
  by (simp add: activate_call_def ext_activate_def emit_def)

lemma activate_call_fresh:
  "\<not> isDisabled s i \<Longrightarrow> map_of (extensions s) i = Some a \<Longrightarrow> \<not> isActive (heap s a) \<Longrightarrow>
   result (heap s a) = None \<Longrightarrow> loadable E (heap s a) \<Longrightarrow>
   activate_call E i s =
     (None, (start_promise E a s)
              \<lparr>frames := frames s @ [\<lparr>f_id = i, f_ext = a, f_awaits = Some (npromises s)\<rparr>]\<rparr>)"
  by (simp add: activate_call_def ext_activate_def start_promise_def Let_def)

lemma start_promise_fields [simp]:
  "disabled (start_promise E a s) = disabled s"
  "extensions (start_promise E a s) = extensions s"
  "frames (start_promise E a s) = frames s"
  "finished (start_promise E a s) = finished s"
  "effects (start_promise E a s) = effects s @ [EntryPoint a (npromises s)]"
  "npromises (start_promise E a s) = Suc (npromises s)"
  "nclosures (start_promise E a s) = nclosures s"
  by (simp_all add: start_promise_def Let_def)

lemma start_promise_heap:
  "heap (start_promise E a s) b =
     (if b = a then (heap s a)\<lparr>ext := True,
                               subscriptions := subscriptions (heap s a) @ pushes E (npromises s),
                               result := Some (npromises s)\<rparr>
      else heap s b)"
  by (simp_all add: start_promise_def Let_def)

lemma start_promise_promises:
  "promises (start_promise E a s) q =
     (if q = npromises s then
        \<lparr>p_owner = a,
         p_state = (case entry E q of Throws e \<Rightarrow> Rejected e | _ \<Rightarrow> Pending)\<rparr>
      else promises s q)"
  by (simp_all add: start_promise_def Let_def)

lemma start_promise_closure_ok:
  assumes ok: "closure_ok s a" and r: "result (heap s a) = None"
  shows "closure_ok (start_promise E a s) a"
proof (rule closure_okI)
  fix q assume "result (heap (start_promise E a s) a) = Some q"
  then have q: "q = npromises s" by (simp add: start_promise_heap start_promise_promises)
  show "q < npromises (start_promise E a s)" by (simp add: q start_promise_heap start_promise_promises)
  show "p_owner (promises (start_promise E a s) q) = a" by (simp add: q start_promise_heap start_promise_promises)
  have "\<not> isActive (heap s a)" using closure_okD(2)[OF ok r] .
  then show "isActive (heap (start_promise E a s) a) =
      (\<exists>v. p_state (promises (start_promise E a s) q) = Fulfilled v)"
    by (simp add: q start_promise_heap start_promise_promises split: behaviour.splits)
next
  fix q assume a1: "q < npromises (start_promise E a s)"
    "p_owner (promises (start_promise E a s) q) = a"
    "p_state (promises (start_promise E a s) q) = Pending"
  show "result (heap (start_promise E a s) a) = Some q"
  proof (cases "q = npromises s")
    case True then show ?thesis by (simp add: start_promise_heap start_promise_promises)
  next
    case False
    then have "q < npromises s" "p_owner (promises s q) = a" "p_state (promises s q) = Pending"
      using a1 by (simp_all add: start_promise_heap start_promise_promises)
    then have "result (heap s a) = Some q" using closure_okD(6)[OF ok] by blast
    then show ?thesis using r by (simp add: start_promise_heap start_promise_promises)
  qed
qed (simp_all add: start_promise_heap)

lemma start_promise_closure_ok_other:
  assumes ok: "closure_ok s b" and ne: "b \<noteq> a"
  shows "closure_ok (start_promise E a s) b"
proof -
  have h: "heap (start_promise E a s) b = heap s b" using ne by (simp add: start_promise_heap)
  have neq: "q \<noteq> npromises s" if "result (heap s b) = Some q" for q
    using closure_okD(3)[OF ok that] by simp
  show ?thesis
  proof (rule closure_okI)
    fix q assume "result (heap (start_promise E a s) b) = Some q"
    then have r: "result (heap s b) = Some q" by (simp add: h)
    show "q < npromises (start_promise E a s)" using closure_okD(3)[OF ok r] by simp
    show "p_owner (promises (start_promise E a s) q) = b"
      using closure_okD(4)[OF ok r] neq[OF r] by (simp add: start_promise_promises)
    show "isActive (heap (start_promise E a s) b) =
        (\<exists>v. p_state (promises (start_promise E a s) q) = Fulfilled v)"
      using closure_okD(5)[OF ok r] neq[OF r] by (simp add: h start_promise_promises)
  next
    fix q assume a1: "q < npromises (start_promise E a s)"
      "p_owner (promises (start_promise E a s) q) = b"
      "p_state (promises (start_promise E a s) q) = Pending"
    have "q \<noteq> npromises s" using a1(2) ne by (auto simp: start_promise_promises)
    then have "q < npromises s" "p_owner (promises s q) = b" "p_state (promises s q) = Pending"
      using a1 by (simp_all add: start_promise_promises)
    then show "result (heap (start_promise E a s) b) = Some q"
      using closure_okD(6)[OF ok] by (simp add: h)
  qed (use closure_okD(1,2)[OF ok] in \<open>simp_all add: h\<close>)
qed

lemma outcomes_from_snoc:
  "n \<le> length (finished s) \<Longrightarrow>
   outcomes_from n i (s\<lparr>finished := finished s @ [(j, out)]\<rparr>) =
     outcomes_from n i s @ (if j = i then [out] else [])"
  by (simp add: outcomes_from_def)

lemma outcomes_from_cong:
  "finished t = finished s \<Longrightarrow> outcomes_from n i t = outcomes_from n i s"
  by (simp add: outcomes_from_def)

lemma verdict_cong:
  "disabled t = disabled s \<Longrightarrow> extensions t = extensions s \<Longrightarrow> heap t = heap s \<Longrightarrow>
   promises t = promises s \<Longrightarrow> verdict E i t = verdict E i s"
  by (simp add: verdict_def isDisabled_def cong: option.case_cong if_cong)

lemma closure_ok_cong:
  "heap t = heap s \<Longrightarrow> promises t = promises s \<Longrightarrow> npromises t = npromises s \<Longrightarrow>
   closure_ok t a = closure_ok s a"
  by (simp add: closure_ok_def)

lemma entry_runs_cong:
  "effects t = effects s \<Longrightarrow> entry_runs a t = entry_runs a s"
  by (simp add: entry_runs_def)

lemma sf_inv_finish:
  assumes inv: "sf_inv E i a n r r' s"
    and v: "j = i \<Longrightarrow> verdict E i s = Some out"
  shows "sf_inv E i a n r r' (s\<lparr>finished := finished s @ [(j, out)]\<rparr>)"
proof -
  let ?t = "s\<lparr>finished := finished s @ [(j, out)]\<rparr>"
  have n: "n \<le> length (finished s)" using inv by (simp add: sf_inv_def)
  have vc: "verdict E i ?t = verdict E i s" by (rule verdict_cong) simp_all
  have cc: "closure_ok ?t a = closure_ok s a" by (rule closure_ok_cong) simp_all
  have ec: "entry_runs a ?t = entry_runs a s" by (rule entry_runs_cong) simp
  have fc: "frames_ok E i a ?t = frames_ok E i a s" by (simp add: frames_ok_def isDisabled_def)
  show ?thesis
    using inv v unfolding sf_inv_def vc cc ec fc outcomes_from_snoc[OF n]
    by auto
qed

lemma frames_ok_alt: "frames_ok E i a s = (\<forall>f \<in> set (frames s). frame_ok E i a s f)"
  by (simp add: frames_ok_def frame_ok_def)

lemma sf_inv_upd:
  assumes inv: "sf_inv E i a n r r' s"
    and eqs: "disabled t = disabled s" "extensions t = extensions s" "heap t = heap s"
      "promises t = promises s" "npromises t = npromises s" "finished t = finished s"
    and runs: "entry_runs a t = entry_runs a s"
    and fr: "\<And>f. f \<in> set (frames t) \<Longrightarrow> f \<in> set (frames s) \<or> frame_ok E i a s f"
  shows "sf_inv E i a n r r' t"
proof -
  have vc: "verdict E i t = verdict E i s" by (rule verdict_cong) (simp_all add: eqs)
  have cc: "closure_ok t a = closure_ok s a" by (rule closure_ok_cong) (simp_all add: eqs)
  have oc: "outcomes_from n i t = outcomes_from n i s" by (rule outcomes_from_cong) (simp add: eqs)
  have fo: "frame_ok E i a t f = frame_ok E i a s f" for f
    by (simp add: frame_ok_def isDisabled_def eqs)
  have "frames_ok E i a s" using inv by (simp add: sf_inv_def)
  then have "frames_ok E i a t"
    unfolding frames_ok_alt fo using fr by blast
  then show ?thesis
    using inv unfolding sf_inv_def vc cc oc runs by (simp add: eqs)
qed

lemma sf_inv_activate:
  assumes inv: "sf_inv E i a n r r' s"
  shows "sf_inv E i a n r r' (step E (Activate i) s)"
proof -
  have reg: "map_of (extensions s) i = Some a" and ok: "closure_ok s a"
    and fo: "frames_ok E i a s" and nn: "n \<le> length (finished s)"
    and vs: "\<forall>out \<in> set (outcomes_from n i s). verdict E i s = Some out"
    and r1: "entry_runs a s = (if result (heap s a) = None then r else r')"
    and r2: "result (heap s a) = None \<longrightarrow> r' = Suc r"
    using inv by (simp_all add: sf_inv_def)
  consider (dis) "isDisabled s i"
    | (act) "\<not> isDisabled s i" "isActive (heap s a)"
    | (cached) p where "\<not> isDisabled s i" "\<not> isActive (heap s a)" "result (heap s a) = Some p"
    | (unl) "\<not> isDisabled s i" "\<not> isActive (heap s a)" "result (heap s a) = None"
        "\<not> loadable E (heap s a)"
    | (fresh) "\<not> isDisabled s i" "\<not> isActive (heap s a)" "result (heap s a) = None"
        "loadable E (heap s a)"
    by (cases "result (heap s a)") auto
  then show ?thesis
  proof cases
    case dis
    then have v: "verdict E i s = Some (Thrown (Disabled i))" by (simp add: verdict_def)
    show ?thesis
      using sf_inv_finish[OF inv v] by (simp add: activate_call_disabled[OF dis] finish_def)
  next
    case act
    then have v: "verdict E i s = Some (Returned True)" using reg by (simp add: verdict_def)
    show ?thesis
      using sf_inv_finish[OF inv v]
      by (simp add: activate_call_active[OF act(1) reg act(2)] finish_def)
  next
    case cached
    let ?f = "\<lparr>f_id = i, f_ext = a, f_awaits = Some p\<rparr>"
    let ?t = "s\<lparr>frames := frames s @ [?f]\<rparr>"
    have "frame_ok E i a s ?f" using cached by (simp add: frame_ok_def)
    then have "sf_inv E i a n r r' ?t"
      by (intro sf_inv_upd[OF inv]) (auto simp: entry_runs_def)
    then show ?thesis
      by (simp add: activate_call_cached[OF cached(1) reg cached(2,3)] finish_def)
  next
    case unl
    let ?f = "\<lparr>f_id = i, f_ext = a, f_awaits = None\<rparr>"
    let ?t = "s\<lparr>effects := effects s @ [LogError (c_id (heap s a))],
               frames := frames s @ [?f]\<rparr>"
    have "frame_ok E i a s ?f" using unl by (simp add: frame_ok_def)
    then have "sf_inv E i a n r r' ?t"
      by (intro sf_inv_upd[OF inv]) (auto simp: entry_runs_def is_entry_of_def)
    then show ?thesis
      by (simp add: activate_call_unloadable[OF unl(1) reg unl(2,3,4)] finish_def)
  next
    case fresh
    let ?f = "\<lparr>f_id = i, f_ext = a, f_awaits = Some (npromises s)\<rparr>"
    let ?u = "start_promise E a s"
    let ?t = "?u\<lparr>frames := frames s @ [?f]\<rparr>"
    have st: "step E (Activate i) s = ?t"
      by (simp add: activate_call_fresh[OF fresh(1) reg fresh(2,3,4)] finish_def)
    have v0: "verdict E i s = None" using fresh reg by (simp add: verdict_def)
    have no: "outcomes_from n i s = []" using vs v0 by (cases "outcomes_from n i s") auto
    have nof: "f_id f \<noteq> i" if "f \<in> set (frames s)" for f
    proof
      assume "f_id f = i"
      with fo that have "f_awaits f = result (heap s a)"
        "f_awaits f = None \<longrightarrow> \<not> loadable E (heap s a)"
        by (auto simp: frames_ok_def)
      with fresh show False by simp
    qed
    have c: "closure_ok ?t a"
      using start_promise_closure_ok[OF ok fresh(3), of E]
      by (simp add: closure_ok_cong[of ?t ?u])
    have f: "frames_ok E i a ?t"
      using nof fresh(1) by (auto simp: frames_ok_def isDisabled_def start_promise_heap)
    have o: "outcomes_from n i ?t = []"
      using no by (simp add: outcomes_from_def)
    have e: "entry_runs a ?t = r'"
      using r1 r2 fresh(3) by (simp add: entry_runs_def is_entry_of_def)
    have rr: "result (heap ?t a) = Some (npromises s)" by (simp add: start_promise_heap)
    show ?thesis
      unfolding st sf_inv_def using reg nn c f o e rr by simp
  qed
qed

lemma settle_static [simp]:
  "result (heap (settle E p s) a) = result (heap s a)"
  "ext (heap (settle E p s) a) = ext (heap s a)"
  "loadable E' (heap (settle E p s) a) = loadable E' (heap s a)"
  by (simp_all add: settle_heap loadable_def filename_of_def isEmpty_of_def
        split: behaviour.splits)

lemma settle_verdict:
  assumes ok: "closure_ok s a" and reg: "map_of (extensions s) i = Some a"
    and v: "verdict E i s = Some out"
  shows "verdict E i (settle E p s) = Some out"
proof (cases "isDisabled s i")
  case True
  then show ?thesis using v by (simp add: verdict_def isDisabled_def)
next
  case nd: False
  then have nd': "\<not> isDisabled (settle E p s) i" by (simp add: isDisabled_def)
  show ?thesis
  proof (cases "fires p s \<and> p_owner (promises s p) = a")
    case False
    then have h: "heap (settle E p s) a = heap s a" by (auto simp add: settle_heap)
    have st: "p_state (promises (settle E p s) q) = p_state (promises s q)"
      if "result (heap s a) = Some q" for q
      using closure_okD(4)[OF ok that] False by (auto simp: settle_state)
    show ?thesis
    proof (cases "result (heap s a)")
      case None
      then show ?thesis using v nd nd' reg by (simp add: verdict_def h split: if_splits)
    next
      case (Some q)
      then show ?thesis using v nd nd' reg st[OF Some]
        by (simp add: verdict_def h split: if_splits)
    qed
  next
    case True
    then have f: "fires p s" and o: "p_owner (promises s p) = a" by simp_all
    have r: "result (heap s a) = Some p"
      using closure_okD(6)[OF ok, of p] f o by (simp add: fires_def)
    have na: "\<not> isActive (heap s a)"
      using closure_okD(5)[OF ok r] f by (simp add: fires_def)
    have "verdict E i s = None"
      using nd reg r na f by (simp add: verdict_def fires_def)
    with v show ?thesis by simp
  qed
qed

lemma sf_inv_settle:
  assumes inv: "sf_inv E i a n r r' s"
  shows "sf_inv E i a n r r' (settle E p s)"
proof -
  have reg: "map_of (extensions s) i = Some a" and ok: "closure_ok s a"
    and fo: "frames_ok E i a s" and nn: "n \<le> length (finished s)"
    and vs: "\<forall>out \<in> set (outcomes_from n i s). verdict E i s = Some out"
    and r1: "entry_runs a s = (if result (heap s a) = None then r else r')"
    and r2: "result (heap s a) = None \<longrightarrow> r' = Suc r"
    using inv by (simp_all add: sf_inv_def)
  have f: "frames_ok E i a (settle E p s)"
    using fo by (simp add: frames_ok_def isDisabled_def)
  have oc: "outcomes_from n i (settle E p s) = outcomes_from n i s"
    by (rule outcomes_from_cong) simp
  have ec: "entry_runs a (settle E p s) = entry_runs a s"
    by (rule entry_runs_cong) simp
  have v: "\<forall>out \<in> set (outcomes_from n i s). verdict E i (settle E p s) = Some out"
    using vs settle_verdict[OF ok reg] by blast
  show ?thesis
    unfolding sf_inv_def oc ec
    using reg settle_closure_ok[OF ok] f nn v r1 r2 by simp
qed

lemma resume_verdict:
  assumes inv: "sf_inv E i a n r r' s" and fin: "f \<in> set (frames s)" and fi: "f_id f = i"
    and cr: "can_resume s f"
  shows "verdict E i s = Some (resume_outcome s f)"
proof -
  have reg: "map_of (extensions s) i = Some a" and ok: "closure_ok s a"
    and fo: "frames_ok E i a s"
    using inv by (simp_all add: sf_inv_def)
  from fo fin fi have nd: "\<not> isDisabled s i" and fe: "f_ext f = a"
    and fa: "f_awaits f = result (heap s a)"
    and fl: "f_awaits f = None \<longrightarrow> \<not> loadable E (heap s a)"
    by (auto simp: frames_ok_def)
  show ?thesis
  proof (cases "result (heap s a)")
    case None
    then have "\<not> isActive (heap s a)" using closure_okD(2)[OF ok] by simp
    then show ?thesis
      using None nd reg fe fa fl by (simp add: verdict_def resume_outcome_def)
  next
    case (Some p)
    have ia: "isActive (heap s a) = (\<exists>v. p_state (promises s p) = Fulfilled v)"
      using closure_okD(5)[OF ok Some] .
    have np: "p_state (promises s p) \<noteq> Pending"
      using cr fa Some by (simp add: can_resume_def)
    show ?thesis
      using Some nd reg fe fa ia np
      by (cases "p_state (promises s p)") (simp_all add: verdict_def resume_outcome_def)
  qed
qed

lemma sf_inv_resume:
  assumes inv: "sf_inv E i a n r r' s"
  shows "sf_inv E i a n r r' (step E (Resume k) s)"
proof (cases "k < length (frames s) \<and> can_resume s (frames s ! k)")
  case False
  then show ?thesis using inv by (simp add: activate_resume_def finish_def)
next
  case True
  let ?f = "frames s ! k"
  let ?out = "resume_outcome s ?f"
  let ?fs = "take k (frames s) @ drop (Suc k) (frames s)"
  let ?es = "if ?out = Returned True then [DidActive (f_ext ?f)] else []"
  let ?u = "s\<lparr>frames := ?fs, effects := effects s @ ?es\<rparr>"
  have fin: "?f \<in> set (frames s)" using True by simp
  have sub: "g \<in> set (frames s)" if "g \<in> set ?fs" for g
    using that by (auto dest: in_set_takeD in_set_dropD)
  have u: "sf_inv E i a n r r' ?u"
  proof (rule sf_inv_upd[OF inv])
    show "entry_runs a ?u = entry_runs a s" by (simp add: entry_runs_def is_entry_of_def)
    show "g \<in> set (frames s) \<or> frame_ok E i a s g" if "g \<in> set (frames ?u)" for g
      using that sub by simp
  qed simp_all
  have vu: "verdict E i ?u = verdict E i s" by (rule verdict_cong) simp_all
  have v: "f_id ?f = i \<Longrightarrow> verdict E i ?u = Some ?out"
    unfolding vu using resume_verdict[OF inv fin] True by simp
  have st: "step E (Resume k) s = ?u\<lparr>finished := finished ?u @ [(f_id ?f, ?out)]\<rparr>"
    using True by (simp add: activate_resume_def finish_def Let_def emit_def)
  show ?thesis unfolding st by (rule sf_inv_finish[OF u v])
qed

lemma sf_inv_step:
  assumes "sf_inv E i a n r r' s" "activation_event i ev"
  shows "sf_inv E i a n r r' (step E ev s)"
  using assms
  by (cases ev) (simp_all add: sf_inv_activate sf_inv_settle sf_inv_resume del: step.simps,
      simp_all add: sf_inv_settle)

lemma sf_inv_exec:
  assumes "sf_inv E i a n r r' s" "\<forall>ev \<in> set evs. activation_event i ev"
  shows "sf_inv E i a n r r' (exec E evs s)"
  using assms unfolding exec_def
  by (induction evs arbitrary: s) (simp_all add: sf_inv_step del: step.simps)

subsection \<open>The shape of reachable registries\<close>

lemma registry_ok_cong:
  assumes "registry_ok s" "heap t = heap s" "promises t = promises s" "npromises t = npromises s"
    "nclosures t = nclosures s" "set (extensions t) \<subseteq> set (extensions s)"
  shows "registry_ok t"
proof -
  have "closure_ok t a = closure_ok s a" for a
    by (rule closure_ok_cong) (simp_all add: assms)
  then show ?thesis using assms unfolding registry_ok_def by auto
qed

lemma registry_ok_lookup:
  assumes "registry_ok s" "map_of (extensions s) i = Some a"
  shows "a < nclosures s" "closure_ok s a"
proof -
  have "(i, a) \<in> set (extensions s)" using assms(2) by (rule map_of_SomeD)
  then show "a < nclosures s" using assms(1) by (auto simp: registry_ok_def)
  then show "closure_ok s a" using assms(1) by (simp add: registry_ok_def)
qed

lemma registry_ok_start_promise:
  assumes w: "registry_ok s" and a: "a < nclosures s" and r: "result (heap s a) = None"
  shows "registry_ok (start_promise E a s)"
  unfolding registry_ok_def
proof (intro conjI allI impI ballI)
  fix p assume "p < npromises (start_promise E a s)"
  then show "p_owner (promises (start_promise E a s) p) < nclosures (start_promise E a s)"
    using w a by (auto simp: registry_ok_def start_promise_promises less_Suc_eq)
next
  fix b assume "b < nclosures (start_promise E a s)"
  then have b: "closure_ok s b" using w by (simp add: registry_ok_def)
  show "closure_ok (start_promise E a s) b"
  proof (cases "b = a")
    case True
    then show ?thesis using start_promise_closure_ok[OF _ r, of E] b by simp
  next
    case False
    then show ?thesis using start_promise_closure_ok_other[OF b] by simp
  qed
next
  fix e assume "e \<in> set (extensions (start_promise E a s))"
  then show "snd e < nclosures (start_promise E a s)" using w by (simp add: registry_ok_def)
qed

lemma registry_ok_activate_call:
  assumes w: "registry_ok s"
  shows "registry_ok (snd (activate_call E i s))"
proof (cases "isDisabled s i")
  case True
  then show ?thesis using w by (simp add: activate_call_disabled)
next
  case nd: False
  show ?thesis
  proof (cases "map_of (extensions s) i")
    case None
    then show ?thesis using w nd by (simp add: activate_call_unknown)
  next
    case (Some a)
    note l = registry_ok_lookup[OF w Some]
    consider (act) "isActive (heap s a)"
      | (cached) p where "\<not> isActive (heap s a)" "result (heap s a) = Some p"
      | (unl) "\<not> isActive (heap s a)" "result (heap s a) = None" "\<not> loadable E (heap s a)"
      | (fresh) "\<not> isActive (heap s a)" "result (heap s a) = None" "loadable E (heap s a)"
      by (cases "result (heap s a)") auto
    then show ?thesis
    proof cases
      case act
      then show ?thesis using w by (simp add: activate_call_active[OF nd Some])
    next
      case cached
      show ?thesis
        unfolding activate_call_cached[OF nd Some cached]
        by (rule registry_ok_cong[OF w]) simp_all
    next
      case unl
      show ?thesis
        unfolding activate_call_unloadable[OF nd Some unl]
        by (rule registry_ok_cong[OF w]) simp_all
    next
      case fresh
      show ?thesis
        unfolding activate_call_fresh[OF nd Some fresh]
        by (rule registry_ok_cong[OF registry_ok_start_promise[OF w l(1) fresh(2), of E]]) simp_all
    qed
  qed
qed

lemma registry_ok_settle:
  assumes w: "registry_ok s"
  shows "registry_ok (settle E p s)"
  using w settle_closure_ok unfolding registry_ok_def by simp

lemma registry_ok_resume:
  assumes w: "registry_ok s"
  shows "registry_ok (snd (activate_resume k s))"
  by (rule registry_ok_cong[OF w]) (simp_all add: activate_resume_def Let_def emit_def)

lemma item_deactivate_fields:
  assumes "isActive (heap s a)"
  shows "heap (item_deactivate E a s) = (heap s)(a := (heap s a)\<lparr>result := None,
           exports := None, isActive := False, subscriptions := []\<rparr>)"
    and "promises (item_deactivate E a s) = promises s"
    and "npromises (item_deactivate E a s) = npromises s"
  using assms by (simp_all add: item_deactivate_def Let_def)

lemma item_deactivate_closure_ok:
  assumes ok: "closure_ok s b"
  shows "closure_ok (item_deactivate E a s) b"
proof (cases "isActive (heap s a)")
  case False
  then have "item_deactivate E a s = s" by (simp add: item_deactivate_def)
  then show ?thesis using ok by simp
next
  case True
  note f = item_deactivate_fields[OF True, of E]
  show ?thesis
  proof (cases "b = a")
    case False
    then have h: "heap (item_deactivate E a s) b = heap s b" by (simp add: f(1))
    show ?thesis using ok unfolding closure_ok_def h f(2) f(3) .
  next
    case ba: True
    have h: "result (heap (item_deactivate E a s) a) = None"
      "isActive (heap (item_deactivate E a s) a) = False"
      by (simp_all add: f(1))
    obtain q where q: "result (heap s a) = Some q"
      using closure_okD(2)[OF ok] True ba by (cases "result (heap s a)") auto
    obtain v where v: "p_state (promises s q) = Fulfilled v"
      using closure_okD(5)[OF ok[unfolded ba] q] True by auto
    have np: False if "r < npromises s" "p_owner (promises s r) = a"
      "p_state (promises s r) = Pending" for r
    proof -
      have "result (heap s a) = Some r" using closure_okD(6)[OF ok[unfolded ba] that] .
      then have "r = q" using q by simp
      then show False using v that(3) by simp
    qed
    show ?thesis
      unfolding ba closure_ok_def h f(2) f(3) using np by auto
  qed
qed

lemma registry_ok_deactivate:
  assumes w: "registry_ok s"
  shows "registry_ok (snd (deactivate E i s))"
proof (cases "map_of (extensions s) i")
  case None
  then show ?thesis using w by (simp add: deactivate_def)
next
  case (Some a)
  have e: "promises (item_deactivate E a s) = promises s"
    "npromises (item_deactivate E a s) = npromises s"
    "nclosures (item_deactivate E a s) = nclosures s"
    "extensions (item_deactivate E a s) = extensions s"
    by (simp_all add: item_deactivate_def Let_def)
  have d: "snd (deactivate E i s) = item_deactivate E a s"
    using Some by (simp add: deactivate_def)
  have c: "closure_ok (item_deactivate E a s) b" if "b < nclosures s" for b
    using w that by (intro item_deactivate_closure_ok) (simp add: registry_ok_def)
  show ?thesis
    unfolding d registry_ok_def e using w c by (simp add: registry_ok_def)
qed

lemma set_delete_subset: "set (AList.delete i xs) \<subseteq> set xs"
  by (induction xs) auto

lemma registry_ok_unload:
  assumes w: "registry_ok s"
  shows "registry_ok (unloadExtension E i s)"
proof (cases "map_of (extensions s) i")
  case None
  then show ?thesis using w by (simp add: unloadExtension_def)
next
  case (Some a)
  let ?d = "snd (deactivate E i s)"
  have u: "unloadExtension E i s =
      emit (DidUnload i) (?d\<lparr>extensions := AList.delete i (extensions ?d)\<rparr>)"
    using Some by (simp add: unloadExtension_def Let_def)
  show ?thesis
    unfolding u
    by (rule registry_ok_cong[OF registry_ok_deactivate[OF w, of E i]])
       (simp_all add: emit_def set_delete_subset)
qed

lemma registry_ok_emit: "registry_ok s \<Longrightarrow> registry_ok (emit e s)"
  by (erule registry_ok_cong) (simp_all add: emit_def)

lemma registry_ok_activate_reported:
  assumes w: "registry_ok s"
  shows "registry_ok (activate_reported E i s)"
proof -
  obtain r t where c: "activate_call E i s = (r, t)" by (cases "activate_call E i s")
  have t: "registry_ok t" using registry_ok_activate_call[OF w, of E i] c by simp
  show ?thesis
  proof (cases r)
    case None
    then show ?thesis using t c by (simp add: activate_reported_def)
  next
    case (Some out)
    then show ?thesis using t c
      by (cases out) (simp_all add: activate_reported_def registry_ok_emit)
  qed
qed

lemma registry_ok_active: "registry_ok s \<Longrightarrow> registry_ok (active E i k s)"
proof -
  assume w: "registry_ok s"
  have "registry_ok (s\<lparr>listeners := filter (\<lambda>l. fst l \<noteq> k) (listeners s)\<rparr>)"
    by (rule registry_ok_cong[OF w]) simp_all
  then show ?thesis by (simp add: active_def Let_def registry_ok_emit registry_ok_activate_reported)
qed

lemma registry_ok_listen: "registry_ok s \<Longrightarrow> registry_ok (listen k i t s)"
  by (erule registry_ok_cong) (simp_all add: listen_def)

lemma registry_ok_setup_loop: "registry_ok s \<Longrightarrow> registry_ok (setup_loop E i k evs s)"
proof (induction evs arbitrary: s)
  case Nil
  then show ?case by simp
next
  case (Cons ev evs)
  obtain nm arg where p: "event_parts ev = (nm, arg)" by (cases "event_parts ev")
  show ?case
    using Cons.prems
    by (simp add: p Let_def Cons.IH registry_ok_active registry_ok_listen registry_ok_emit
          split: option.splits)
qed

lemma registry_ok_setupActiveEvents: "registry_ok s \<Longrightarrow> registry_ok (setupActiveEvents E i pj s)"
proof -
  assume w: "registry_ok s"
  have "registry_ok (s\<lparr>nsetups := Suc (nsetups s)\<rparr>)" by (rule registry_ok_cong[OF w]) simp_all
  then show ?thesis
    using w by (auto simp: setupActiveEvents_def registry_ok_activate_reported registry_ok_setup_loop
        split: option.splits)
qed

lemma closure_ok_cong_at:
  "heap t a = heap s a \<Longrightarrow> promises t = promises s \<Longrightarrow> npromises t = npromises s \<Longrightarrow>
   closure_ok t a = closure_ok s a"
  by (simp add: closure_ok_def)

lemma set_update_subset: "set (AList.update k v xs) \<subseteq> insert (k, v) (set xs)"
  by (induction xs) auto

lemma registry_ok_create:
  assumes w: "registry_ok s"
  shows "registry_ok (createExtension E root pj ty s)"
proof -
  let ?a = "nclosures s"
  let ?c = "\<lparr>c_id = pj_name pj, c_root = root, c_packageJSON = pj, c_type = ty,
             isActive = False, result = None, ext = False, subscriptions = [],
             exports = None\<rparr>"
  let ?s1 = "s\<lparr>heap := (heap s)(?a := ?c), nclosures := Suc ?a,
               extensions := AList.update (pj_name pj) ?a (extensions s)\<rparr>"
  have own: "p_owner (promises s p) < ?a" if "p < npromises s" for p
    using w that by (simp add: registry_ok_def)
  have h: "result (heap ?s1 ?a) = None" "isActive (heap ?s1 ?a) = False"
    "promises ?s1 = promises s" "npromises ?s1 = npromises s"
    by simp_all
  have own': "p_owner (promises s p) \<noteq> ?a" if "p < npromises s" for p
    using own[OF that] by simp
  have new: "closure_ok ?s1 ?a"
    unfolding closure_ok_def h using own' by simp
  have old: "closure_ok ?s1 b" if "b < ?a" for b
  proof -
    have "closure_ok s b" using w that by (simp add: registry_ok_def)
    moreover have "closure_ok ?s1 b = closure_ok s b"
      by (rule closure_ok_cong_at) (use that in simp_all)
    ultimately show ?thesis by simp
  qed
  have ext: "snd e < Suc ?a" if "e \<in> set (AList.update (pj_name pj) ?a (extensions s))" for e
  proof -
    have "e = (pj_name pj, ?a) \<or> e \<in> set (extensions s)"
      using that set_update_subset[of "pj_name pj" ?a "extensions s"] by blast
    then show ?thesis
    proof
      assume "e = (pj_name pj, ?a)" then show ?thesis by simp
    next
      assume "e \<in> set (extensions s)"
      then have "snd e < ?a" using w by (simp add: registry_ok_def)
      then show ?thesis by simp
    qed
  qed
  have "registry_ok ?s1"
    unfolding registry_ok_def
  proof (intro conjI allI impI ballI)
    fix p assume "p < npromises ?s1"
    then have "p_owner (promises s p) < ?a" using own by simp
    then show "p_owner (promises ?s1 p) < nclosures ?s1" by simp
  next
    fix b assume "b < nclosures ?s1"
    then have "b < ?a \<or> b = ?a" by (simp add: less_Suc_eq)
    then show "closure_ok ?s1 b" using old new by blast
  next
    fix e assume "e \<in> set (extensions ?s1)"
    then show "snd e < nclosures ?s1" using ext by simp
  qed
  then have e: "registry_ok (emit (DidLoad ?a) ?s1)" by (rule registry_ok_emit)
  have c: "createExtension E root pj ty s =
      (if activated (emit (DidLoad ?a) ?s1)
       then setupActiveEvents E (pj_name pj) pj (emit (DidLoad ?a) ?s1)
       else emit (DidLoad ?a) ?s1)"
    unfolding createExtension_def Let_def ..
  show ?thesis
    unfolding c using e registry_ok_setupActiveEvents[OF e] by (simp only: if_split) simp
qed

lemma registry_ok_finish:
  assumes "registry_ok (snd r)"
  shows "registry_ok (finish i r)"
proof (cases r)
  case (Pair x t)
  then have t: "registry_ok t" using assms by simp
  show ?thesis
  proof (cases x)
    case None
    then show ?thesis using t Pair by (simp add: finish_def)
  next
    case (Some out)
    have "registry_ok (t\<lparr>finished := finished t @ [(i, out)]\<rparr>)"
      by (rule registry_ok_cong[OF t]) simp_all
    then show ?thesis using Some Pair by (simp add: finish_def)
  qed
qed

lemma registry_ok_step:
  assumes w: "registry_ok s"
  shows "registry_ok (step E ev s)"
proof (cases ev)
  case (Activate i)
  show ?thesis unfolding Activate step.simps
    by (rule registry_ok_finish[OF registry_ok_activate_call[OF w]])
next
  case (Settle p)
  show ?thesis unfolding Settle step.simps by (rule registry_ok_settle[OF w])
next
  case (Resume k)
  show ?thesis unfolding Resume step.simps
    using registry_ok_finish[OF registry_ok_resume[OF w]] w by simp
next
  case (Deactivate i)
  show ?thesis unfolding Deactivate step.simps by (rule registry_ok_deactivate[OF w])
next
  case (Unload i)
  show ?thesis unfolding Unload step.simps by (rule registry_ok_unload[OF w])
next
  case (Create root pj ty)
  show ?thesis unfolding Create step.simps by (rule registry_ok_create[OF w])
qed

lemma registry_ok_exec: "registry_ok s \<Longrightarrow> registry_ok (exec E evs s)"
  unfolding exec_def by (induction evs arbitrary: s) (simp_all add: registry_ok_step del: step.simps)

lemma registry_ok_empty: "registry_ok empty_registry"
  by (simp add: registry_ok_def empty_registry_def)

text \<open>
  Every record of a registry that a schedule reaches from the empty registry satisfies
  \<open>closure_ok\<close>, the hypothesis of the theorems on activation below.
\<close>

lemma reachable_closure_ok:
  assumes "map_of (extensions (exec E evs empty_registry)) i = Some a"
  shows "closure_ok (exec E evs empty_registry) a"
  using registry_ok_lookup(2)[OF registry_ok_exec[OF registry_ok_empty] assms] .

subsection \<open>Activation of a disabled extension\<close>

text \<open>
  C2. When \<open>isDisabled(id)\<close> holds, \<open>activate(id)\<close> throws the error saying that the extension
  is disabled before anything else happens: the registry is left exactly as it was, so no
  entry point runs, no promise is created and the record's \<open>isActive\<close> flag keeps its
  value; a record that is not active stays so after any number of such calls.
\<close>

theorem activate_disabled_fails:
  assumes "isDisabled s i"
  shows "activate_call E i s = (Some (Thrown (Disabled i)), s)
       \<and> exec E (replicate n (Activate i)) s =
           s\<lparr>finished := finished s @ replicate n (i, Thrown (Disabled i))\<rparr>
       \<and> isActivated (exec E (replicate n (Activate i)) s) i = isActivated s i
       \<and> effects (exec E (replicate n (Activate i)) s) = effects s"
proof -
  have call: "activate_call E i t = (Some (Thrown (Disabled i)), t)" if "isDisabled t i" for t
    using that by (simp add: activate_call_def)
  have run: "exec E (replicate n (Activate i)) t =
               t\<lparr>finished := finished t @ replicate n (i, Thrown (Disabled i))\<rparr>"
    if "isDisabled t i" for t
    using that
  proof (induction n arbitrary: t)
    case 0
    then show ?case by (simp add: exec_def)
  next
    case (Suc n)
    let ?t = "t\<lparr>finished := finished t @ [(i, Thrown (Disabled i))]\<rparr>"
    have d: "isDisabled ?t i" using Suc.prems by (simp add: isDisabled_def)
    have "exec E (replicate (Suc n) (Activate i)) t = exec E (replicate n (Activate i)) ?t"
      using Suc.prems by (simp add: exec_def call finish_def)
    also have "\<dots> = ?t\<lparr>finished := finished ?t @ replicate n (i, Thrown (Disabled i))\<rparr>"
      by (rule Suc.IH [OF d])
    finally show ?case by (simp add: replicate_app_Cons_same)
  qed
  show ?thesis
    using assms by (simp add: call run isActivated_def split: option.splits)
qed

theorem activate_disabled_fails_witness:
  "isDisabled (demo_registry\<lparr>disabled := {''coc-demo''}\<rparr>) ''coc-demo''
   \<and> activate_call demo_env ''coc-demo'' (demo_registry\<lparr>disabled := {''coc-demo''}\<rparr>) =
       (Some (Thrown (Disabled ''coc-demo'')), demo_registry\<lparr>disabled := {''coc-demo''}\<rparr>)
   \<and> \<not> isActivated (exec demo_env (replicate 2 (Activate ''coc-demo''))
          (demo_registry\<lparr>disabled := {''coc-demo''}\<rparr>)) ''coc-demo''"
proof -
  have d: "isDisabled (demo_registry\<lparr>disabled := {''coc-demo''}\<rparr>) ''coc-demo''"
    by (simp add: isDisabled_def)
  have "\<not> isActivated (demo_registry\<lparr>disabled := {''coc-demo''}\<rparr>) ''coc-demo''"
    by (simp add: isActivated_def demo_registry_def demo_closure_def empty_registry_def)
  with d activate_disabled_fails [OF d, of demo_env 2] show ?thesis
    by blast
qed

subsection \<open>Single-flight activation\<close>

text \<open>
  C1. For a registered id, in every schedule made of \<open>activate(id)\<close> calls, promise
  settlements and resumptions of suspended calls (so: repeated and concurrent calls in any
  interleaving), the entry point runs at most once, all the calls that complete report the
  same outcome (the same return value or the same error), and the entry point does not run
  at all when a promise is already cached; on an active extension \<open>activate(id)\<close> returns
  \<open>true\<close> at once and leaves the registry as it is. The records are those made by
  \<open>createExtension\<close>. The hypotheses say that the record is in the shape that every
  registry reached from the empty one has (\<open>closure_ok\<close>, see \<open>reachable_closure_ok\<close>)
  and that the run starts with no call for this id suspended. An entry point is taken not
  to call \<open>activate\<close> for its own id before it returns.
\<close>

theorem activate_single_flight:
  assumes reg: "map_of (extensions s) i = Some a"
    and ok: "closure_ok s a"
    and nofr: "\<forall>f \<in> set (frames s). f_id f \<noteq> i"
    and sched: "\<forall>ev \<in> set evs. activation_event i ev"
  shows "entry_runs a (exec E evs s) \<le> Suc (entry_runs a s)
       \<and> (\<forall>o1 \<in> set (outcomes_from (length (finished s)) i (exec E evs s)).
           \<forall>o2 \<in> set (outcomes_from (length (finished s)) i (exec E evs s)). o1 = o2)
       \<and> (result (heap s a) \<noteq> None \<longrightarrow> entry_runs a (exec E evs s) = entry_runs a s)
       \<and> (isActive (heap s a) \<and> \<not> isDisabled s i \<longrightarrow>
            activate_call E i s = (Some (Returned True), s))"
proof -
  let ?n = "length (finished s)"
  let ?r = "entry_runs a s"
  let ?r' = "if result (heap s a) = None then Suc ?r else ?r"
  let ?t = "exec E evs s"
  have "frames_ok E i a s" using nofr by (simp add: frames_ok_def)
  then have "sf_inv E i a ?n ?r ?r' s"
    using reg ok by (simp add: sf_inv_def outcomes_from_def)
  then have inv: "sf_inv E i a ?n ?r ?r' ?t" using sched by (rule sf_inv_exec)
  then have runs: "entry_runs a ?t = (if result (heap ?t a) = None then ?r else ?r')"
    and vs: "\<forall>out \<in> set (outcomes_from ?n i ?t). verdict E i ?t = Some out"
    by (simp_all add: sf_inv_def)
  have 1: "entry_runs a ?t \<le> Suc ?r" unfolding runs by simp
  have 2: "\<forall>o1 \<in> set (outcomes_from ?n i ?t). \<forall>o2 \<in> set (outcomes_from ?n i ?t). o1 = o2"
  proof (intro ballI)
    fix o1 o2
    assume "o1 \<in> set (outcomes_from ?n i ?t)" "o2 \<in> set (outcomes_from ?n i ?t)"
    with vs have "verdict E i ?t = Some o1" "verdict E i ?t = Some o2" by blast+
    then show "o1 = o2" by simp
  qed
  have 3: "result (heap s a) \<noteq> None \<longrightarrow> entry_runs a ?t = ?r" unfolding runs by simp
  have 4: "isActive (heap s a) \<and> \<not> isDisabled s i \<longrightarrow>
            activate_call E i s = (Some (Returned True), s)"
    using reg by (simp add: activate_call_def)
  show ?thesis using 1 2 3 4 by blast
qed

lemma demo_run:
  "outcomes_from 0 ''coc-demo'' (exec demo_env demo_schedule demo_registry) =
     [Returned True, Returned True, Returned True]
   \<and> entry_runs 0 (exec demo_env demo_schedule demo_registry) = 1"
  by (simp add: demo_schedule_def exec_def demo_registry_def empty_registry_def demo_env_def
        demo_closure_def demo_pkg_def activate_call_def ext_activate_def start_promise_def
        settle_def activate_resume_def can_resume_def resume_outcome_def finish_def emit_def
        loadable_def isDisabled_def outcomes_from_def entry_runs_def is_entry_of_def Let_def)

lemma all_equal_remdups:
  assumes "\<forall>x \<in> set xs. \<forall>y \<in> set xs. x = y"
  shows "length (remdups xs) \<le> 1"
proof (cases xs)
  case Nil
  then show ?thesis by simp
next
  case (Cons x ys)
  then have "set xs = {x}" using assms by auto
  then have "card (set xs) = 1" by simp
  then show ?thesis by (simp add: length_remdups_card_conv)
qed

theorem activate_single_flight_witness:
  "map_of (extensions demo_registry) ''coc-demo'' = Some 0
   \<and> closure_ok demo_registry 0
   \<and> frames demo_registry = []
   \<and> list_all (activation_event ''coc-demo'') demo_schedule
   \<and> entry_runs 0 (exec demo_env demo_schedule demo_registry) \<le> Suc (entry_runs 0 demo_registry)
   \<and> length (remdups (outcomes_from (length (finished demo_registry)) ''coc-demo''
                 (exec demo_env demo_schedule demo_registry))) \<le> 1"
proof -
  have h1: "map_of (extensions demo_registry) ''coc-demo'' = Some 0"
    by (simp add: demo_registry_def)
  have h2: "closure_ok demo_registry 0"
    by (simp add: closure_ok_def demo_registry_def demo_closure_def empty_registry_def)
  have f: "frames demo_registry = []"
    by (simp add: demo_registry_def empty_registry_def)
  then have h3: "\<forall>f \<in> set (frames demo_registry). f_id f \<noteq> ''coc-demo''"
    by simp
  have l: "list_all (activation_event ''coc-demo'') demo_schedule"
    by (simp add: demo_schedule_def)
  then have h4: "\<forall>ev \<in> set demo_schedule. activation_event ''coc-demo'' ev"
    by (simp add: list_all_iff)
  note t = activate_single_flight [OF h1 h2 h3 h4, of demo_env]
  from t have "entry_runs 0 (exec demo_env demo_schedule demo_registry)
                 \<le> Suc (entry_runs 0 demo_registry)"
    by blast
  moreover from t have "length (remdups (outcomes_from (length (finished demo_registry))
      ''coc-demo'' (exec demo_env demo_schedule demo_registry))) \<le> 1"
    by (intro all_equal_remdups) blast
  ultimately show ?thesis using h1 h2 f l by blast
qed

subsection \<open>Deactivation followed by activation\<close>

lemma deactivate_active:
  assumes reg: "map_of (extensions s) i = Some a" and act: "isActive (heap s a)"
  shows "deactivate E i s =
     (True, s\<lparr>heap := (heap s)(a := (heap s a)\<lparr>result := None, exports := None,
                                    isActive := False, subscriptions := []\<rparr>),
             effects := effects s @ map Disposed (subscriptions (heap s a)) @
                (if ext (heap s a) \<and> has_deactivate E (c_id (heap s a))
                 then [Teardown a] else [])\<rparr>)"
  using assms by (simp add: deactivate_def item_deactivate_def Let_def)

lemma deactivate_inactive:
  assumes reg: "map_of (extensions s) i = Some a" and act: "\<not> isActive (heap s a)"
  shows "deactivate E i s = (True, s)"
  using assms by (simp add: deactivate_def item_deactivate_def Let_def)

text \<open>
  C3. On an active extension that is not disabled, \<open>deactivate(id)\<close> clears the cached
  promise and the cached exports, resets the active flag, empties the subscriptions after
  disposing every one of them, and runs no entry point; the following \<open>activate(id)\<close> runs
  the entry point once more, in a new promise that differs from the one cached before, and
  when that run fulfils with \<open>v\<close> the extension is active again with exports \<open>v\<close>.
\<close>

theorem deactivate_then_activate_reruns:
  assumes reg: "map_of (extensions s) i = Some a"
    and act: "isActive (heap s a)"
    and ok: "closure_ok s a"
    and nd: "\<not> isDisabled s i"
  shows "result (heap (snd (deactivate E i s)) a) = None
       \<and> exports (heap (snd (deactivate E i s)) a) = None
       \<and> \<not> isActive (heap (snd (deactivate E i s)) a)
       \<and> subscriptions (heap (snd (deactivate E i s)) a) = []
       \<and> set (map Disposed (subscriptions (heap s a))) \<subseteq> set (effects (snd (deactivate E i s)))
       \<and> entry_runs a (snd (deactivate E i s)) = entry_runs a s
       \<and> entry_runs a (reactivate E i s) = Suc (entry_runs a s)
       \<and> EntryPoint a (npromises s) \<in> set (effects (reactivate E i s))
       \<and> result (heap (reactivate E i s) a) = Some (npromises s)
       \<and> result (heap s a) \<noteq> Some (npromises s)
       \<and> (\<forall>v. entry E (npromises s) = Resolves v \<longrightarrow>
             isActive (heap (settle E (npromises s) (reactivate E i s)) a) \<and>
             exports (heap (settle E (npromises s) (reactivate E i s)) a) = Some v)"
proof -
  let ?d = "snd (deactivate E i s)"
  let ?p = "npromises s"
  obtain q where q: "result (heap s a) = Some q"
    using closure_okD(2)[OF ok] act by (cases "result (heap s a)") auto
  have e: "ext (heap s a)" using closure_okD(1)[OF ok] q by simp
  have ql: "q < npromises s" using closure_okD(3)[OF ok q] .
  have d: "?d = s\<lparr>heap := (heap s)(a := (heap s a)\<lparr>result := None, exports := None,
                                    isActive := False, subscriptions := []\<rparr>),
             effects := effects s @ map Disposed (subscriptions (heap s a)) @
                (if has_deactivate E (c_id (heap s a)) then [Teardown a] else [])\<rparr>"
    using e by (simp add: deactivate_active[OF reg act])
  have d1: "result (heap ?d a) = None" "exports (heap ?d a) = None" "\<not> isActive (heap ?d a)"
    "subscriptions (heap ?d a) = []" "npromises ?d = ?p" "\<not> isDisabled ?d i"
    "map_of (extensions ?d) i = Some a" "loadable E (heap ?d a)"
    using nd reg e unfolding d by (simp_all add: isDisabled_def loadable_def)
  have d2: "set (map Disposed (subscriptions (heap s a))) \<subseteq> set (effects ?d)"
    unfolding d by auto
  have d3: "entry_runs a ?d = entry_runs a s"
    unfolding d by (simp add: entry_runs_def is_entry_of_def)
  have r: "reactivate E i s =
      (start_promise E a ?d)\<lparr>frames := frames ?d @ [\<lparr>f_id = i, f_ext = a, f_awaits = Some ?p\<rparr>]\<rparr>"
    unfolding reactivate_def
    using activate_call_fresh[OF d1(6) d1(7) d1(3) d1(1) d1(8)] d1(5) by simp
  have r1: "entry_runs a (reactivate E i s) = Suc (entry_runs a s)"
    unfolding r using d3 d1(5) by (simp add: entry_runs_def is_entry_of_def)
  have r2: "EntryPoint a ?p \<in> set (effects (reactivate E i s))"
    unfolding r using d1(5) by simp
  have r3: "result (heap (reactivate E i s) a) = Some ?p"
    unfolding r using d1(5) by (simp add: start_promise_heap)
  have r4: "result (heap s a) \<noteq> Some ?p" using q ql by simp
  have r5: "isActive (heap (settle E ?p (reactivate E i s)) a) \<and>
            exports (heap (settle E ?p (reactivate E i s)) a) = Some v"
    if "entry E ?p = Resolves v" for v
    unfolding r using that d1(5)
    by (simp add: settle_heap fires_def start_promise_promises start_promise_heap)
  show ?thesis using d1(1-4) d2 d3 r1 r2 r3 r4 r5 by blast
qed

lemmas demo_defs =
  exec_def demo_registry_def empty_registry_def demo_env_def fail_env_def
  demo_closure_def demo_pkg_def activate_call_def ext_activate_def start_promise_def
  settle_def activate_resume_def can_resume_def resume_outcome_def finish_def emit_def
  loadable_def isDisabled_def outcomes_from_def entry_runs_def is_entry_of_def Let_def
  deactivate_def item_deactivate_def

theorem deactivate_then_activate_reruns_witness:
  "map_of (extensions active_registry) ''coc-demo'' = Some 0
   \<and> isActive (heap active_registry 0)
   \<and> closure_ok active_registry 0
   \<and> \<not> isDisabled active_registry ''coc-demo''
   \<and> exports (heap active_registry 0) = Some 100
   \<and> result (heap (snd (deactivate demo_env ''coc-demo'' active_registry)) 0) = None
   \<and> entry_runs 0 (reactivate demo_env ''coc-demo'' active_registry) = Suc (entry_runs 0 active_registry)
   \<and> exports (heap (settle demo_env 1 (reactivate demo_env ''coc-demo'' active_registry)) 0) = Some 101"
proof -
  have h1: "map_of (extensions active_registry) ''coc-demo'' = Some 0"
    by (simp add: active_registry_def demo_defs)
  have h2: "isActive (heap active_registry 0)"
    by (simp add: active_registry_def demo_defs)
  have h3: "closure_ok active_registry 0"
    by (simp add: active_registry_def closure_ok_def demo_defs)
  have h4: "\<not> isDisabled active_registry ''coc-demo''"
    by (simp add: active_registry_def demo_defs)
  have h5: "exports (heap active_registry 0) = Some 100"
    by (simp add: active_registry_def demo_defs)
  have n: "npromises active_registry = 1"
    by (simp add: active_registry_def demo_defs)
  have e: "entry demo_env 1 = Resolves 101" by (simp add: demo_env_def)
  note t = deactivate_then_activate_reruns [OF h1 h2 h3 h4, of demo_env]
  from t have "result (heap (snd (deactivate demo_env ''coc-demo'' active_registry)) 0) = None"
    by blast
  moreover from t have "entry_runs 0 (reactivate demo_env ''coc-demo'' active_registry) =
      Suc (entry_runs 0 active_registry)"
    by blast
  moreover from t e have "exports (heap (settle demo_env 1
      (reactivate demo_env ''coc-demo'' active_registry)) 0) = Some 101"
    unfolding n by blast
  ultimately show ?thesis using h1 h2 h3 h4 h5 by blast
qed

subsection \<open>A rejected activation\<close>

lemma resume_static [simp]:
  "heap (step E (Resume k) s) = heap s"
  "promises (step E (Resume k) s) = promises s"
  "disabled (step E (Resume k) s) = disabled s"
  by (simp_all add: activate_resume_def finish_def emit_def Let_def)

lemma rejected_step:
  assumes inv: "sf_inv E i a n r r' s"
    and res: "result (heap s a) = Some p"
    and rej: "p_state (promises s p) = Rejected e"
    and nd: "\<not> isDisabled s i"
    and ev: "lifecycle_event i ev"
  shows "sf_inv E i a n r r' (step E ev s) \<and> result (heap (step E ev s) a) = Some p
       \<and> p_state (promises (step E ev s) p) = Rejected e \<and> \<not> isDisabled (step E ev s) i"
proof -
  have reg: "map_of (extensions s) i = Some a" and ok: "closure_ok s a"
    using inv by (simp_all add: sf_inv_def)
  have na: "\<not> isActive (heap s a)" using closure_okD(5)[OF ok res] rej by simp
  show ?thesis
  proof (cases ev)
    case (Activate j)
    then have j: "j = i" using ev by simp
    have st: "step E ev s = s\<lparr>frames := frames s @ [\<lparr>f_id = i, f_ext = a, f_awaits = Some p\<rparr>]\<rparr>"
      unfolding Activate j by (simp add: activate_call_cached[OF nd reg na res] finish_def)
    have "sf_inv E i a n r r' (step E ev s)"
      using sf_inv_activate[OF inv] unfolding Activate j .
    then show ?thesis using res rej nd unfolding st by (simp add: isDisabled_def)
  next
    case (Settle q)
    have "sf_inv E i a n r r' (step E ev s)" unfolding Settle using sf_inv_settle[OF inv] by simp
    moreover have "p_state (promises (settle E q s) p) = Rejected e"
      using rej by (auto simp: settle_state fires_def)
    ultimately show ?thesis using res nd unfolding Settle
      by (simp add: isDisabled_def)
  next
    case (Resume k)
    have "sf_inv E i a n r r' (step E ev s)" unfolding Resume using sf_inv_resume[OF inv] .
    then show ?thesis using res rej nd unfolding Resume
      by (simp add: isDisabled_def del: step.simps)
  next
    case (Deactivate j)
    then have j: "j = i" using ev by simp
    have "step E ev s = s" unfolding Deactivate j
      by (simp add: deactivate_inactive[OF reg na])
    then show ?thesis using inv res rej nd by simp
  next
    case (Unload j)
    then show ?thesis using ev by simp
  next
    case (Create x y z)
    then show ?thesis using ev by simp
  qed
qed

lemma rejected_exec:
  assumes "sf_inv E i a n r r' s" "result (heap s a) = Some p"
    "p_state (promises s p) = Rejected e" "\<not> isDisabled s i"
    "\<forall>ev \<in> set evs. lifecycle_event i ev"
  shows "sf_inv E i a n r r' (exec E evs s) \<and> result (heap (exec E evs s) a) = Some p
       \<and> p_state (promises (exec E evs s) p) = Rejected e \<and> \<not> isDisabled (exec E evs s) i"
  using assms
proof (induction evs arbitrary: s)
  case Nil
  then show ?case by (simp add: exec_def)
next
  case (Cons ev evs)
  have l: "lifecycle_event i ev" using Cons.prems(5) by simp
  note s1 = rejected_step[OF Cons.prems(1-4) l]
  have "exec E (ev # evs) s = exec E evs (step E ev s)" by (simp add: exec_def)
  then show ?case
    using Cons.IH[of "step E ev s"] s1 Cons.prems(5) by simp
qed

text \<open>
  C10, amended. Once the cached promise of a record has rejected with \<open>e\<close>, every
  \<open>activate(id)\<close> that completes throws \<open>e\<close> and the entry point never runs again, in every
  schedule of \<open>activate(id)\<close> and \<open>deactivate(id)\<close> calls, settlements and resumptions:
  \<open>deactivate\<close> returns early on a record that is not active, so it does not clear the
  cached promise. Only a newly created record (after an unload) starts afresh.
\<close>

theorem rejected_activation_cached:
  assumes reg: "map_of (extensions s) i = Some a"
    and ok: "closure_ok s a"
    and res: "result (heap s a) = Some p"
    and rej: "p_state (promises s p) = Rejected e"
    and nd: "\<not> isDisabled s i"
    and fr: "\<forall>f \<in> set (frames s). f_id f = i \<longrightarrow> f_ext f = a \<and> f_awaits f = Some p"
    and sched: "\<forall>ev \<in> set evs. lifecycle_event i ev"
  shows "entry_runs a (exec E evs s) = entry_runs a s
       \<and> (\<forall>out \<in> set (outcomes_from (length (finished s)) i (exec E evs s)).
             out = Thrown (ActivationError e))
       \<and> result (heap (exec E evs s) a) = Some p
       \<and> \<not> isActive (heap (exec E evs s) a)"
proof -
  let ?n = "length (finished s)"
  let ?r = "entry_runs a s"
  let ?t = "exec E evs s"
  have "frames_ok E i a s" using fr nd res by (auto simp: frames_ok_def)
  then have i0: "sf_inv E i a ?n ?r ?r s"
    using reg ok res by (simp add: sf_inv_def outcomes_from_def)
  note x = rejected_exec[OF i0 res rej nd sched]
  then have inv: "sf_inv E i a ?n ?r ?r ?t" and res': "result (heap ?t a) = Some p"
    and rej': "p_state (promises ?t p) = Rejected e" and nd': "\<not> isDisabled ?t i"
    by simp_all
  have reg': "map_of (extensions ?t) i = Some a" and ok': "closure_ok ?t a"
    and runs: "entry_runs a ?t = (if result (heap ?t a) = None then ?r else ?r)"
    and vs: "\<forall>out \<in> set (outcomes_from ?n i ?t). verdict E i ?t = Some out"
    using inv by (simp_all add: sf_inv_def)
  have na: "\<not> isActive (heap ?t a)" using closure_okD(5)[OF ok' res'] rej' by simp
  have v: "verdict E i ?t = Some (Thrown (ActivationError e))"
    using nd' reg' na res' rej' by (simp add: verdict_def)
  have 2: "\<forall>out \<in> set (outcomes_from ?n i ?t). out = Thrown (ActivationError e)"
    using vs v by simp
  show ?thesis using runs 2 res' na by simp
qed

theorem rejected_activation_cached_witness:
  "map_of (extensions rejected_registry) ''coc-demo'' = Some 0
   \<and> closure_ok rejected_registry 0
   \<and> result (heap rejected_registry 0) = Some 0
   \<and> p_state (promises rejected_registry 0) = Rejected ''boom''
   \<and> \<not> isDisabled rejected_registry ''coc-demo''
   \<and> frames rejected_registry = []
   \<and> list_all (lifecycle_event ''coc-demo'')
        [Deactivate ''coc-demo'', Activate ''coc-demo'', Resume 0, Activate ''coc-demo'']
   \<and> entry_runs 0 (exec fail_env
        [Deactivate ''coc-demo'', Activate ''coc-demo'', Resume 0, Activate ''coc-demo'']
        rejected_registry) = entry_runs 0 rejected_registry
   \<and> set (outcomes_from (length (finished rejected_registry)) ''coc-demo'' (exec fail_env
        [Deactivate ''coc-demo'', Activate ''coc-demo'', Resume 0, Activate ''coc-demo'']
        rejected_registry)) \<subseteq> {Thrown (ActivationError ''boom'')}"
proof -
  let ?evs = "[Deactivate ''coc-demo'', Activate ''coc-demo'', Resume 0, Activate ''coc-demo'']"
  have h1: "map_of (extensions rejected_registry) ''coc-demo'' = Some 0"
    by (simp add: rejected_registry_def demo_defs)
  have h2: "closure_ok rejected_registry 0"
    by (simp add: rejected_registry_def closure_ok_def demo_defs)
  have h3: "result (heap rejected_registry 0) = Some 0"
    by (simp add: rejected_registry_def demo_defs)
  have h4: "p_state (promises rejected_registry 0) = Rejected ''boom''"
    by (simp add: rejected_registry_def demo_defs)
  have h5: "\<not> isDisabled rejected_registry ''coc-demo''"
    by (simp add: rejected_registry_def demo_defs)
  have f: "frames rejected_registry = []"
    by (simp add: rejected_registry_def demo_defs)
  then have h6: "\<forall>f \<in> set (frames rejected_registry).
      f_id f = ''coc-demo'' \<longrightarrow> f_ext f = 0 \<and> f_awaits f = Some 0"
    by simp
  have l: "list_all (lifecycle_event ''coc-demo'') ?evs" by simp
  then have h7: "\<forall>ev \<in> set ?evs. lifecycle_event ''coc-demo'' ev"
    unfolding list_all_iff .
  note t = rejected_activation_cached [OF h1 h2 h3 h4 h5 h6 h7, of fail_env]
  from t have "entry_runs 0 (exec fail_env ?evs rejected_registry) = entry_runs 0 rejected_registry"
    by blast
  moreover from t have "set (outcomes_from (length (finished rejected_registry)) ''coc-demo''
      (exec fail_env ?evs rejected_registry)) \<subseteq> {Thrown (ActivationError ''boom'')}"
    by blast
  ultimately show ?thesis using h1 h2 h3 h4 h5 f l by blast
qed

text \<open>
  C10 as stated fails: after a rejected activation, \<open>deactivate(id)\<close> leaves the rejected
  promise cached, and the next \<open>activate(id)\<close> throws the same error without running the
  entry point.
\<close>

theorem deactivate_keeps_rejection:
  "result (heap (exec fail_env [Activate ''coc-demo'', Settle 0, Resume 0,
                                Deactivate ''coc-demo''] demo_registry) 0) = Some 0
   \<and> outcomes_from 0 ''coc-demo''
       (exec fail_env [Activate ''coc-demo'', Settle 0, Resume 0, Deactivate ''coc-demo'',
                       Activate ''coc-demo'', Resume 0] demo_registry) =
       [Thrown (ActivationError ''boom''), Thrown (ActivationError ''boom'')]
   \<and> entry_runs 0
       (exec fail_env [Activate ''coc-demo'', Settle 0, Resume 0, Deactivate ''coc-demo'',
                       Activate ''coc-demo'', Resume 0] demo_registry) = 1"
  by (simp add: demo_defs)

subsection \<open>Immediate activation\<close>

lemma activate_reported_can:
  assumes "canActivate s i"
  shows "activate_reported E i s = snd (activate_call E i s)"
proof -
  obtain a where a: "map_of (extensions s) i = Some a" and nd: "\<not> isDisabled s i"
    using assms by (auto simp: canActivate_def has_def)
  show ?thesis
    using a nd
    by (simp add: activate_reported_def activate_call_def split: prod.splits)
qed

text \<open>
  C7, amended. For an extension that is registered and not disabled, and whose manifest
  has no \<open>activationEvents\<close> field or lists \<open>*\<close>, \<open>setupActiveEvents\<close> is the call
  \<open>activate(id)\<close>: on a loadable record that is neither active nor in flight the entry point
  runs during the set-up.
\<close>

theorem setup_activates_immediately:
  assumes can: "canActivate s i"
    and ev: "pj_activationEvents pj = None \<or>
             (\<exists>evs. pj_activationEvents pj = Some evs \<and> ''*'' \<in> set evs)"
  shows "setupActiveEvents E i pj s = snd (activate_call E i s)
       \<and> (\<forall>a. map_of (extensions s) i = Some a \<and> \<not> isActive (heap s a)
              \<and> result (heap s a) = None \<and> loadable E (heap s a) \<longrightarrow>
            effects (setupActiveEvents E i pj s) = effects s @ [EntryPoint a (npromises s)])"
proof -
  have 1: "setupActiveEvents E i pj s = snd (activate_call E i s)"
    using can ev by (auto simp: setupActiveEvents_def activate_reported_can)
  have nd: "\<not> isDisabled s i" using can by (simp add: canActivate_def)
  have 2: "effects (snd (activate_call E i s)) = effects s @ [EntryPoint a (npromises s)]"
    if "map_of (extensions s) i = Some a" "\<not> isActive (heap s a)"
      "result (heap s a) = None" "loadable E (heap s a)" for a
    using activate_call_fresh[OF nd that] by simp
  show ?thesis unfolding 1 using 2 by blast
qed

theorem setup_activates_immediately_witness:
  "canActivate demo_registry ''coc-demo''
   \<and> pj_activationEvents demo_pkg = None
   \<and> setupActiveEvents demo_env ''coc-demo'' demo_pkg demo_registry =
       snd (activate_call demo_env ''coc-demo'' demo_registry)
   \<and> effects (setupActiveEvents demo_env ''coc-demo'' demo_pkg demo_registry) = [EntryPoint 0 0]"
proof -
  have h1: "canActivate demo_registry ''coc-demo''"
    by (simp add: canActivate_def has_def demo_defs)
  have h2: "pj_activationEvents demo_pkg = None" by (simp add: demo_pkg_def)
  then have h2': "pj_activationEvents demo_pkg = None \<or>
      (\<exists>evs. pj_activationEvents demo_pkg = Some evs \<and> ''*'' \<in> set evs)" by simp
  have x: "map_of (extensions demo_registry) ''coc-demo'' = Some 0 \<and>
      \<not> isActive (heap demo_registry 0) \<and> result (heap demo_registry 0) = None \<and>
      loadable demo_env (heap demo_registry 0)"
    by (simp add: demo_defs)
  have y: "effects demo_registry @ [EntryPoint 0 (npromises demo_registry)] = [EntryPoint 0 0]"
    by (simp add: demo_defs)
  note t = setup_activates_immediately [OF h1 h2', of demo_env]
  from t x have "effects (setupActiveEvents demo_env ''coc-demo'' demo_pkg demo_registry) =
      effects demo_registry @ [EntryPoint 0 (npromises demo_registry)]"
    by blast
  then have "effects (setupActiveEvents demo_env ''coc-demo'' demo_pkg demo_registry) =
      [EntryPoint 0 0]" unfolding y .
  then show ?thesis using t h1 h2 by blast
qed

text \<open>
  C7 as stated fails for the empty list: \<open>activationEvents: []\<close> is neither absent nor does
  it contain \<open>*\<close>, the loop registers nothing, and the extension is not activated, neither
  by \<open>setupActiveEvents\<close> nor by \<open>createExtension\<close> on an activated registry.
\<close>

theorem empty_events_never_activate:
  "canActivate demo_registry ''coc-demo''
   \<and> pj_activationEvents empty_events_pkg = Some []
   \<and> setupActiveEvents demo_env ''coc-demo'' empty_events_pkg demo_registry =
       demo_registry\<lparr>nsetups := 1\<rparr>
   \<and> effects (setupActiveEvents demo_env ''coc-demo'' empty_events_pkg demo_registry) = []
   \<and> listeners (setupActiveEvents demo_env ''coc-demo'' empty_events_pkg demo_registry) = []
   \<and> effects (createExtension demo_env ''/ext/coc-demo'' empty_events_pkg Global
                (empty_registry\<lparr>activated := True\<rparr>)) = [DidLoad 0]"
  by (simp add: setupActiveEvents_def createExtension_def canActivate_def has_def
        empty_events_pkg_def demo_defs)

section \<open>Properties of the installer\<close>

subsection \<open>The registry URL\<close>

lemma read_entries_fails:
  "list_ex (\<lambda>line. CHR ''='' \<in> set line \<and> CR \<in> set line) ls \<Longrightarrow> read_entries ls obj = None"
  by (induction ls arbitrary: obj) (auto simp: parse_line_def)

lemma read_entries_ok:
  "\<not> list_ex (\<lambda>line. CHR ''='' \<in> set line \<and> CR \<in> set line) ls \<Longrightarrow>
   read_entries ls obj =
     Some (obj ++ map_of (rev (map (\<lambda>line. (takeWhile (\<lambda>c. c \<noteq> CHR ''='') line,
                   tl (dropWhile (\<lambda>c. c \<noteq> CHR ''='') line)))
       (filter (\<lambda>line. CHR ''='' \<in> set line) ls))))"
proof (induction ls arbitrary: obj)
  case Nil
  then show ?case by simp
next
  case (Cons l ls)
  then show ?case
    by (auto simp: parse_line_def map_add_def fun_eq_iff split: option.splits)
qed

lemma map_of_rev_last:
  "map_of (rev es) key =
     (case filter (\<lambda>e. fst e = key) es of [] \<Rightarrow> None | fs \<Rightarrow> Some (snd (last fs)))"
proof (induction es rule: rev_induct)
  case Nil
  then show ?case by simp
next
  case (snoc e es)
  then show ?case by (cases e) (auto split: list.splits)
qed

lemma truthy_override:
  assumes "\<not> stray_return content"
  shows "read_entries (split_lines content) Map.empty = Some obj \<Longrightarrow>
         override_of key content = (if truthy (obj key) then Some (the (obj key)) else None)"
  using read_entries_ok[OF assms[unfolded stray_return_def], of Map.empty]
  by (auto simp: override_of_def entries_of_def truthy_def map_of_rev_last split: list.splits)

lemma with_slash_ends: "ends_with ''/'' (with_slash res)"
  by (simp add: with_slash_def ends_with_def)




subsection \<open>Frame lemmas and evaluation rules\<close>

lemma log_fields [simp]:
  "i_fs (log m b s) = i_fs s" "i_url (log m b s) = i_url s" "i_name (log m b s) = i_name s"
  "i_version (log m b s) = i_version s" "i_root (log m b s) = i_root s"
  "i_def (log m b s) = i_def s" "i_npm (log m b s) = i_npm s"
  by (simp_all add: log_def)

lemma getInfoFromUri_fs [simp]: "i_fs (snd (getInfoFromUri E u s)) = i_fs s"
  by (simp add: getInfoFromUri_def Let_def split: sum.splits)

lemma getInfo_fs [simp]: "i_fs (snd (getInfo E s)) = i_fs s"
  by (simp add: getInfo_def Let_def split: sum.splits option.splits)

lemma getInfoFromUri_log: "fst (getInfoFromUri E u (log m b s)) = fst (getInfoFromUri E u s)"
  by (simp add: getInfoFromUri_def Let_def split: sum.splits)

lemma getInfo_log: "fst (getInfo E (log m b s)) = fst (getInfo E s)"
  by (simp add: getInfo_def getInfoFromUri_log Let_def split: sum.splits option.splits)

lemma getInfoFromUri_root [simp]: "i_root (snd (getInfoFromUri E u s)) = i_root s"
  by (simp add: getInfoFromUri_def Let_def split: sum.splits)

lemma getInfo_root [simp]: "i_root (snd (getInfo E s)) = i_root s"
  by (simp add: getInfo_def Let_def split: sum.splits option.splits)

lemma on_fs_fields [simp]:
  "i_fs (on_fs f s) = f (i_fs s)" "i_root (on_fs f s) = i_root s" "i_url (on_fs f s) = i_url s"
  "i_name (on_fs f s) = i_name s" "i_npm (on_fs f s) = i_npm s"
  by (simp_all add: on_fs_def)

lemma follow_numeral [simp]:
  "follow (numeral k) fs p =
     (case map_of (files fs) p of
        Some (Symlink t) \<Rightarrow> follow (pred_numeral k) fs t
      | r \<Rightarrow> r)"
  by (simp add: numeral_eq_Suc)

lemmas fs_defs =
  stat_def existsSync_def lstat_def isSymbolicLink_def readJson_def under_def
  removeSync_def unlinkSync_def move_def rmdirSync_def mkdirp_def writeFile_def
  join_def on_fs_def log_def shown_def truthy_def

lemmas installer_defs =
  update_def update_decide_def reinstall_def install_def doInstall_def finish_install_def
  ensure_manifest_def pinned_entries_def clear_folder_def place_def getInfo_def
  getInfoFromUri_def installed_version_def check_engine_def required_of_def
  caret_to_gte_def getDependencies_def getInstallArguments_def manifest_path_def
  registryUrl_def with_slash_def default_registry_def starts_with_def ends_with_def
  only_dependencies_def empty_object_def sorted_entries_def

lemmas demo_installer_defs =
  demo_ienv_def demo_installer_def installed_installer_def dangling_installer_def
  linked_installer_def url_installer_def modules_def base_files_def root_manifest_def
  demo_registry_doc_def demo_version_doc_def demo_manifest_def snippets_manifest_def
  plain_gte_def plain_satisfies_def plain_version_def number_of_def digit_of_def

lemma plain_gte_demo: "plain_gte ''1.2.0'' ''1.2.0'' = Some True"
  by (simp add: plain_gte_def plain_version_def number_of_def digit_of_def)

subsection \<open>Engine declaration\<close>

text \<open>
  C6, amended. On a registry lookup (no URL set), when the version that \<open>getInfo\<close> resolves
  declares no \<open>engines.coc\<close>, \<open>getInfo\<close> throws the error saying that the package is not a
  valid coc extension.
\<close>

theorem getInfo_registry_requires_engine:
  assumes "\<not> truthy (i_url s)"
    and "fetch_registry E (registryUrl (npmrc E) ''coc.nvim'' @ shown (i_name s)) = Inr res"
    and "truthy (i_version s) \<or> rd_dist_tags res \<noteq> None"
    and "rd_versions res = Some vs"
    and "map_of vs (resolved_version s res) = Some obj"
    and "\<not> truthy (engine_of obj)"
  shows "fst (getInfo E s) = Inl (NotCocExtension (i_def s))"
  using assms
  by (auto simp: getInfo_def Let_def resolved_version_def engine_of_def)

theorem getInfo_registry_requires_engine_witness:
  "\<not> truthy (i_url (demo_installer\<lparr>i_def := ''bare'', i_name := Some ''bare''\<rparr>))
   \<and> fst (getInfo
        (demo_ienv\<lparr>fetch_registry := (\<lambda>u. Inr \<lparr>rd_name = Some ''bare'',
             rd_dist_tags = Some [(''latest'', ''1.0.0'')],
             rd_versions = Some [(''1.0.0'', demo_version_doc\<lparr>vd_engines := None\<rparr>)]\<rparr>)\<rparr>)
        (demo_installer\<lparr>i_def := ''bare'', i_name := Some ''bare''\<rparr>)) =
       Inl (NotCocExtension ''bare'')"
proof -
  let ?res = "\<lparr>rd_name = Some ''bare'', rd_dist_tags = Some [(''latest'', ''1.0.0'')],
               rd_versions = Some [(''1.0.0'', demo_version_doc\<lparr>vd_engines := None\<rparr>)]\<rparr>"
  let ?E = "demo_ienv\<lparr>fetch_registry := (\<lambda>u. Inr ?res)\<rparr>"
  let ?s = "demo_installer\<lparr>i_def := ''bare'', i_name := Some ''bare''\<rparr>"
  have h1: "\<not> truthy (i_url ?s)" by (simp add: truthy_def demo_installer_def)
  have h2: "fetch_registry ?E (registryUrl (npmrc ?E) ''coc.nvim'' @ shown (i_name ?s)) = Inr ?res"
    by simp
  have h3: "truthy (i_version ?s) \<or> rd_dist_tags ?res \<noteq> None" by simp
  have h4: "rd_versions ?res = Some [(''1.0.0'', demo_version_doc\<lparr>vd_engines := None\<rparr>)]"
    by simp
  have h5: "map_of [(''1.0.0'', demo_version_doc\<lparr>vd_engines := None\<rparr>)]
              (resolved_version ?s ?res) = Some (demo_version_doc\<lparr>vd_engines := None\<rparr>)"
    by (simp add: resolved_version_def truthy_def shown_def demo_installer_def)
  have h6: "\<not> truthy (engine_of (demo_version_doc\<lparr>vd_engines := None\<rparr>))"
    by (simp add: engine_of_def truthy_def)
  have "i_def ?s = ''bare''" by simp
  with getInfo_registry_requires_engine [OF h1 h2 h3 h4 h5 h6] h1 show ?thesis by simp
qed

text \<open>
  C6 as stated fails on the URL path: for a GitHub URL whose \<open>package.json\<close> has no
  \<open>engines.coc\<close>, \<open>getInfoFromUri\<close> returns the information with \<open>engines.coc\<close> set to
  \<open>null\<close> and throws nothing.
\<close>

theorem getInfo_uri_without_engine:
  "m_engines snippets_manifest = Some [(''vscode'', ''^1.0.0'')]
   \<and> fst (getInfo demo_ienv url_installer) =
       Inr \<lparr>dist_tarball = Some ''https://github.com/acme/vue-snippets/archive/main.tar.gz'',
            engines_coc = None, info_version = Some ''0.1.0'',
            info_name = Some ''vue-snippets''\<rparr>"
  by (simp add: installer_defs fs_defs demo_installer_defs Let_def)

subsection \<open>An installed version that is current\<close>

lemma update_decide_current:
  assumes "fst r = Inr info" "info_version info = Some w" "v \<noteq> []" "w \<noteq> []"
    "semver_gte E v w = Some True"
  shows "fst (update_decide E (Some v) r) = Inr None
       \<and> i_fs (snd (update_decide E (Some v) r)) = i_fs (snd r)"
  using assms by (cases r) (auto simp: update_decide_def truthy_def)

text \<open>
  C4. When the \<open>package.json\<close> of the installed folder carries a version, \<open>getInfo\<close>
  resolves a version, and \<open>semver.gte\<close> says that the installed one is greater or equal,
  \<open>update\<close> returns \<open>undefined\<close> and the file system (files and writes) is what it was:
  \<open>doInstall\<close> is not reached.
\<close>

theorem update_up_to_date:
  assumes nm: "i_name s = Some nm"
    and iv: "installed_version (i_fs s) (join (i_root s) nm) = Inr (Some v)"
    and gi: "fst (getInfo E (s\<lparr>i_url := url\<rparr>)) = Inr info"
    and rv: "info_version info = Some w"
    and ne: "v \<noteq> []" "w \<noteq> []"
    and ge: "semver_gte E v w = Some True"
  shows "fst (update E url s) = Inr None \<and> i_fs (snd (update E url s)) = i_fs s"
proof (cases "isSymbolicLink (i_fs s) (join (i_root s) nm)")
  case True
  then show ?thesis using nm by (simp add: update_def Let_def)
next
  case False
  define r where "r = getInfo E (log (''Using npm from: '' @ i_npm s) False (s\<lparr>i_url := url\<rparr>))"
  have f: "fst r = Inr info" unfolding r_def using gi by (simp only: getInfo_log)
  have fs: "i_fs (snd r) = i_fs s" unfolding r_def by (simp only: getInfo_fs log_fields) simp
  have u: "update E url s = update_decide E (Some v) r"
    unfolding r_def using nm False iv by (simp add: update_def Let_def)
  show ?thesis unfolding u using update_decide_current[OF f rv ne ge] fs by simp
qed

theorem update_up_to_date_witness:
  "i_name installed_installer = Some ''demo-ext''
   \<and> installed_version (i_fs installed_installer) (join (i_root installed_installer) ''demo-ext'')
       = Inr (Some ''1.2.0'')
   \<and> semver_gte demo_ienv ''1.2.0'' ''1.2.0'' = Some True
   \<and> fst (update demo_ienv None installed_installer) = Inr None
   \<and> i_fs (snd (update demo_ienv None installed_installer)) = i_fs installed_installer"
proof -
  let ?info = "\<lparr>dist_tarball = Some ''https://example/demo-ext-1.2.0.tgz'',
                engines_coc = Some ''^0.0.1'', info_version = Some ''1.2.0'',
                info_name = Some ''demo-ext''\<rparr>"
  have h1: "i_name installed_installer = Some ''demo-ext''"
    by (simp add: demo_installer_defs)
  have h2: "installed_version (i_fs installed_installer)
              (join (i_root installed_installer) ''demo-ext'') = Inr (Some ''1.2.0'')"
    by (simp add: installer_defs fs_defs demo_installer_defs)
  have h3: "fst (getInfo demo_ienv (installed_installer\<lparr>i_url := None\<rparr>)) = Inr ?info"
    by (simp add: installer_defs fs_defs demo_installer_defs Let_def)
  have h4: "info_version ?info = Some ''1.2.0''" by simp
  have h5: "''1.2.0'' \<noteq> []" by simp
  have h6: "semver_gte demo_ienv ''1.2.0'' ''1.2.0'' = Some True"
    by (simp add: demo_ienv_def plain_gte_demo)
  from update_up_to_date [OF h1 h2 h3 h4 h5 h5 h6] h1 h2 h6 show ?thesis by blast
qed

subsection \<open>Symbolic links\<close>

text \<open>
  On a symbolic link whose target exists, \<open>isSymbolicLink\<close> holds: \<open>update\<close> returns
  \<open>undefined\<close> and \<open>doInstall\<close> returns \<open>false\<close>, and the file system stays as it is.
\<close>

lemma update_symlink:
  assumes "i_name s = Some nm" "isSymbolicLink (i_fs s) (join (i_root s) nm)"
  shows "fst (update E url s) = Inr None \<and> i_fs (snd (update E url s)) = i_fs s"
  using assms by (simp add: update_def Let_def)

lemma doInstall_symlink:
  assumes "info_name info = Some nm" "isSymbolicLink (i_fs s) (join (i_root s) nm)"
  shows "doInstall E info s = (Inr False, s)"
  using assms by (simp add: doInstall_def Let_def)

lemma update_linked:
  "fst (update demo_ienv None linked_installer) = Inr None
   \<and> i_fs (snd (update demo_ienv None linked_installer)) = i_fs linked_installer"
  by (simp add: installer_defs fs_defs demo_installer_defs Let_def)

text \<open>
  C5 at a dangling link: the install folder of \<open>demo-ext\<close> is a symbolic link whose target
  does not exist. \<open>isSymbolicLink\<close> answers \<open>false\<close>, \<open>update\<close> goes on to \<open>doInstall\<close>,
  which replaces the link by the downloaded directory and rewrites the manifest, and the
  folder is returned instead of \<open>undefined\<close>.
\<close>

theorem update_replaces_dangling_link:
  "lstat (i_fs dangling_installer) (modules @ [''demo-ext'']) = Some (Symlink [''src'', ''demo-ext''])
   \<and> isSymbolicLink (i_fs dangling_installer) (modules @ [''demo-ext'']) = False
   \<and> fst (update demo_ienv None dangling_installer) = Inr (Some (modules @ [''demo-ext'']))
   \<and> lstat (i_fs (snd (update demo_ienv None dangling_installer))) (modules @ [''demo-ext''])
       = Some Dir
   \<and> fst (doInstall demo_ienv
        \<lparr>dist_tarball = Some ''https://example/demo-ext-1.2.0.tgz'',
         engines_coc = Some ''^0.0.1'', info_version = Some ''1.2.0'',
         info_name = Some ''demo-ext''\<rparr> dangling_installer) = Inr True"
  by code_simp

subsection \<open>Writes of the dependency manifest\<close>

lemma sorted_writes_refl: "writes fs' = writes fs \<Longrightarrow> sorted_writes p fs fs'"
  by (simp add: sorted_writes_def)

lemma sorted_writes_trans:
  "sorted_writes p fs fs' \<Longrightarrow> sorted_writes p fs' fs'' \<Longrightarrow> sorted_writes p fs fs''"
  by (auto simp: sorted_writes_def)

lemma sorted_keys_sorted_entries: "sorted_keys (Json (only_dependencies (sorted_entries ds)))"
  by (simp add: sorted_keys_def only_dependencies_def sorted_entries_def comp_def)

lemma sorted_keys_empty: "sorted_keys (Json empty_object)"
  by (simp add: sorted_keys_def empty_object_def)

lemma sorted_writes_write:
  "sorted_keys c \<Longrightarrow> writes fs' = writes fs \<Longrightarrow> sorted_writes p fs (writeFile p c fs')"
  by (simp add: sorted_writes_def writeFile_def)

lemma writes_ops [simp]:
  "writes (removeSync p fs) = writes fs"
  "writes (unlinkSync p fs) = writes fs"
  "writes (mkdirp p fs) = writes fs"
  "move a b fs = Inr fs' \<Longrightarrow> writes fs' = writes fs"
  "rmdirSync p fs = Inr fs' \<Longrightarrow> writes fs' = writes fs"
  by (auto simp: removeSync_def unlinkSync_def mkdirp_def move_def rmdirSync_def Let_def
      split: if_splits option.splits node.splits)

lemma writes_writeFile [simp]: "writes (writeFile p c fs) = writes fs @ [(p, c)]"
  by (simp add: writeFile_def)

lemma ensure_manifest_writes:
  "sorted_writes p (i_fs s) (i_fs (ensure_manifest p s))"
  by (simp add: ensure_manifest_def sorted_writes_def sorted_keys_empty)

lemma ensure_manifest_root [simp]: "i_root (ensure_manifest p s) = i_root s"
  by (simp add: ensure_manifest_def)

lemma clear_folder_writes [simp]: "writes (i_fs (clear_folder f s)) = writes (i_fs s)"
  by (simp add: clear_folder_def split: option.splits node.splits)

lemma place_writes:
  assumes "sorted_keys c"
  shows "sorted_writes p (i_fs s) (i_fs (snd (place p folder tmp c s)))"
proof (cases "move tmp folder (i_fs s)")
  case (Inl e)
  then show ?thesis by (simp add: place_def sorted_writes_refl)
next
  case (Inr fs1)
  have w1: "writes fs1 = writes (i_fs s)" using writes_ops(4)[OF Inr] .
  have a: "sorted_writes p (i_fs s) (writeFile p c fs1)"
    using sorted_writes_write[OF assms w1] .
  have b: "sorted_writes p (i_fs s) fs2" if "rmdirSync tmp (writeFile p c fs1) = Inr fs2" for fs2
    using writes_ops(5)[OF that] a by (simp add: sorted_writes_def)
  show ?thesis using Inr a b
    by (simp add: place_def Let_def split: sum.splits)
qed

lemma finish_install_writes:
  "sorted_writes (manifest_path E (i_root s)) (i_fs s)
     (i_fs (snd (finish_install E info nm folder tmp s)))"
proof -
  let ?p = "manifest_path E (i_root s)"
  let ?s1 = "ensure_manifest ?p s"
  have w1: "sorted_writes ?p (i_fs s) (i_fs ?s1)" by (rule ensure_manifest_writes)
  have "sorted_writes ?p (i_fs ?s1) (i_fs (snd (finish_install E info nm folder tmp s)))"
  proof (cases "readJson (i_fs ?s1) ?p")
    case None
    then show ?thesis by (simp add: finish_install_def Let_def sorted_writes_refl)
  next
    case (Some c)
    show ?thesis
    proof (cases c)
      case Malformed
      then show ?thesis using Some by (simp add: finish_install_def Let_def sorted_writes_refl)
    next
      case (Json obj)
      let ?c = "Json (only_dependencies (pinned_entries ?s1 info nm obj))"
      have sk: "sorted_keys ?c"
        unfolding pinned_entries_def by (rule sorted_keys_sorted_entries)
      have "sorted_writes ?p (i_fs (clear_folder folder ?s1))
              (i_fs (snd (place ?p folder tmp ?c (clear_folder folder ?s1))))"
        by (rule place_writes[OF sk])
      then have "sorted_writes ?p (i_fs ?s1)
              (i_fs (snd (place ?p folder tmp ?c (clear_folder folder ?s1))))"
        by (simp add: sorted_writes_def)
      then show ?thesis using Some Json by (simp add: finish_install_def Let_def)
    qed
  qed
  with w1 show ?thesis by (rule sorted_writes_trans)
qed

lemma doInstall_writes:
  "sorted_writes (manifest_path E (i_root s)) (i_fs s) (i_fs (snd (doInstall E info s)))"
proof (cases "info_name info")
  case None
  then show ?thesis by (simp add: doInstall_def sorted_writes_refl)
next
  case (Some nm)
  let ?p = "manifest_path E (i_root s)"
  have f: "sorted_writes ?p (i_fs s) (i_fs (snd (finish_install E info nm folder tmp t)))"
    if "i_root t = i_root s" "writes (i_fs t) = writes (i_fs s)" for t folder tmp
    using finish_install_writes[of E t info nm folder tmp] that
    by (simp add: sorted_writes_def)
  show ?thesis
    using Some
    by (auto simp: doInstall_def Let_def sorted_writes_refl intro!: f
        split: sum.splits option.splits spawned.splits)
qed

lemma doInstall_writes_from:
  assumes "i_root t = i_root s" "writes (i_fs t) = writes (i_fs s)"
  shows "sorted_writes (manifest_path E (i_root s)) (i_fs s) (i_fs (snd (doInstall E info t)))"
  using doInstall_writes[of E t info] assms by (simp add: sorted_writes_def)

lemma reinstall_writes_from:
  assumes "i_root t = i_root s" "writes (i_fs t) = writes (i_fs s)"
  shows "sorted_writes (manifest_path E (i_root s)) (i_fs s) (i_fs (snd (reinstall E info t)))"
proof (cases "doInstall E info t")
  case (Pair x t')
  have "sorted_writes (manifest_path E (i_root s)) (i_fs s) (i_fs t')"
    using doInstall_writes_from[OF assms, of E info] Pair by simp
  then show ?thesis
    using assms Pair by (cases x) (simp_all add: reinstall_def sorted_writes_refl)
qed

lemma install_writes:
  "sorted_writes (manifest_path E (i_root s)) (i_fs s) (i_fs (snd (install E s)))"
proof -
  define r where "r = getInfo E (log (''Using npm from: '' @ i_npm s) False s)"
  have a: "i_root (snd r) = i_root s" "writes (i_fs (snd r)) = writes (i_fs s)"
    unfolding r_def by simp_all
  obtain x t where r: "r = (x, t)" by (cases r)
  have b: "i_root t = i_root s" "writes (i_fs t) = writes (i_fs s)" using a r by simp_all
  show ?thesis
  proof (cases x)
    case (Inl e)
    then show ?thesis unfolding install_def r_def[symmetric] using b r
      by (simp add: sorted_writes_refl)
  next
    case (Inr info)
    obtain y t' where d: "doInstall E info t = (y, t')" by (cases "doInstall E info t")
    have "sorted_writes (manifest_path E (i_root s)) (i_fs s) (i_fs t')"
      using doInstall_writes_from[OF b, of E info] d by simp
    then show ?thesis unfolding install_def r_def[symmetric] using Inr b r d
      by (cases y) (simp_all add: sorted_writes_refl)
  qed
qed

lemma update_decide_writes:
  assumes "i_root (snd r) = i_root s" "writes (i_fs (snd r)) = writes (i_fs s)"
  shows "sorted_writes (manifest_path E (i_root s)) (i_fs s)
           (i_fs (snd (update_decide E version r)))"
proof (cases r)
  case (Pair x t)
  then have b: "i_root t = i_root s" "writes (i_fs t) = writes (i_fs s)" using assms by simp_all
  show ?thesis
    using Pair b reinstall_writes_from[OF b, of E]
    by (cases x) (auto simp: update_decide_def sorted_writes_refl split: option.splits bool.splits)
qed

lemma update_writes:
  "sorted_writes (manifest_path E (i_root s)) (i_fs s) (i_fs (snd (update E url s)))"
proof -
  define r where "r = getInfo E (log (''Using npm from: '' @ i_npm (s\<lparr>i_url := url\<rparr>)) False
      (s\<lparr>i_url := url\<rparr>))"
  have a: "i_root (snd r) = i_root s" "writes (i_fs (snd r)) = writes (i_fs s)"
    unfolding r_def by simp_all
  note d = update_decide_writes[OF a, of E]
  show ?thesis
    unfolding update_def Let_def r_def[symmetric]
    using d by (simp add: sorted_writes_refl split: option.splits sum.splits)
qed

lemma uninstall_fold_writes:
  "writes (fst (snd (fold (uninstall_one R m) ids (r, fs, deps)))) = writes fs"
  by (induction ids arbitrary: r fs deps) (simp_all add: uninstall_one_def)

lemma uninstall_end_writes:
  "sorted_writes p fs
     (snd (case fold (uninstall_one R m) gs (r0, fs, deps) of
             (r2, fs2, None) \<Rightarrow> (emit e1 r2, fs2)
           | (r2, fs2, Some ds) \<Rightarrow>
               (emit e2 r2, writeFile p (Json (only_dependencies (sorted_entries ds))) fs2)))"
proof -
  obtain r2 fs2 d2 where st: "fold (uninstall_one R m) gs (r0, fs, deps) = (r2, fs2, d2)"
    by (cases "fold (uninstall_one R m) gs (r0, fs, deps)")
  have w: "writes fs2 = writes fs"
    using uninstall_fold_writes[of R m gs r0 fs deps] st by simp
  show ?thesis
    using w
    by (cases d2)
       (simp_all add: st sorted_writes_refl sorted_writes_write sorted_keys_sorted_entries)
qed

lemma uninstall_writes:
  "sorted_writes (join root ''package.json'') (snd w)
     (snd (uninstallExtension R test root ids w))"
proof (cases w)
  case (Pair r fs)
  show ?thesis
  proof (cases "ids = []")
    case True
    then show ?thesis using Pair by (simp add: uninstallExtension_def sorted_writes_refl)
  next
    case False
    show ?thesis
    proof (cases "loadJson root fs")
      case (Inl e)
      then show ?thesis using Pair False
        by (simp add: uninstallExtension_def sorted_writes_refl)
    next
      case (Inr json)
      show ?thesis
        using Pair False Inr
        by (simp add: uninstallExtension_def Let_def splitArray_def uninstall_end_writes)
    qed
  qed
qed

lemma checkRoot_writes:
  "sorted_writes (join root ''package.json'') fs (snd (checkRoot root fs))"
proof -
  have e: "sorted_keys (Json (only_dependencies []))"
    by (simp add: sorted_keys_def only_dependencies_def)
  show ?thesis
    by (auto simp: checkRoot_def Let_def sorted_writes_refl intro!: sorted_writes_write[OF e]
        split: option.splits node.splits)
qed

lemma checkRoot_keeps:
  assumes "stat fs root = Some Dir" "existsSync fs (join root ''package.json'')"
  shows "checkRoot root fs = (True, fs)"
  using assms by (auto simp: checkRoot_def Let_def existsSync_def)


lemma demo_install_manifest:
  "install demo_ienv demo_installer
     = (Inr (Some ''demo-ext''), snd (install demo_ienv demo_installer))
   \<and> writes (i_fs (snd (install demo_ienv demo_installer))) =
       [([''data'', ''extensions'', ''package.json''],
         Json (only_dependencies
           [(''a-ext'', ''>=2.0.0''), (''demo-ext'', ''>=1.2.0''), (''z-ext'', ''>=0.3.0'')]))]
   \<and> readJson (i_fs (snd (install demo_ienv demo_installer)))
        [''data'', ''extensions'', ''node_modules'', ''demo-ext'', ''package.json'']
       = Some (Json demo_manifest)"
  by code_simp


end
